theory Spec2Isabelle
  imports Complex_Main "HOL-Library.AList"
begin

section \<open>Characters and strings\<close>

text \<open>
  A Python \<open>str\<close> is modelled as a \<^typ>\<open>string\<close> whose characters are the code points
  0 to 255 (Latin-1). The character classes below are those of Python 3 on that range:
  \<open>str.isspace\<close> and the regular-expression class \<open>\s\<close> agree there, \<open>\d\<close> and
  \<open>[0-9]\<close> are the ten ASCII digits, \<open>[A-Z]\<close> the 26 ASCII capitals.
\<close>

definition code :: "char \<Rightarrow> nat" where
  "code c = of_char c"

definition is_space :: "char \<Rightarrow> bool" where
  "is_space c = (code c \<in> {9, 10, 11, 12, 13, 28, 29, 30, 31, 32, 133, 160})"

definition is_digit :: "char \<Rightarrow> bool" where
  "is_digit c = (48 \<le> code c \<and> code c \<le> 57)"

definition is_upper :: "char \<Rightarrow> bool" where
  "is_upper c = (65 \<le> code c \<and> code c \<le> 90)"

text \<open>\<open>s.strip()\<close>: leading and trailing whitespace removed.\<close>

definition strip :: "string \<Rightarrow> string" where
  "strip s = rev (dropWhile is_space (rev (dropWhile is_space s)))"

text \<open>
  \<open>re.sub(r"\s+", " ", s)\<close>: every maximal run of whitespace is replaced by one space.
\<close>

function collapse_ws :: "string \<Rightarrow> string" where
  "collapse_ws [] = []"
| "collapse_ws (c # cs) =
     (if is_space c then CHR '' '' # collapse_ws (dropWhile is_space cs)
      else c # collapse_ws cs)"
  by pat_completeness auto
termination
  by (relation "measure length") (auto simp: less_Suc_eq_le length_dropWhile_le)

text \<open>
  The anchor \<open>$\<close> (without \<open>re.MULTILINE\<close>) holds at the end of the string and just
  before a line feed that is the last character.
\<close>

definition at_dollar :: "string \<Rightarrow> bool" where
  "at_dollar cs = (cs = [] \<or> cs = [CHR 0x0A])"

text \<open>The look-ahead \<open>\d{4}$\<close>, tried on the text that follows a space.\<close>

definition four_digits_end :: "string \<Rightarrow> bool" where
  "four_digits_end cs =
     (4 \<le> length cs \<and> list_all is_digit (take 4 cs) \<and> at_dollar (drop 4 cs))"

text \<open>
  \<open>re.sub(r" (?!\d{4}$)", "", s)\<close>: a space is deleted unless the look-ahead succeeds
  after it; every other character is copied.
\<close>

fun sub_space_not_before_year :: "string \<Rightarrow> string" where
  "sub_space_not_before_year [] = []"
| "sub_space_not_before_year (c # cs) =
     (if c = CHR '' '' \<and> \<not> four_digits_end cs then sub_space_not_before_year cs
      else c # sub_space_not_before_year cs)"

definition clean_call_number_keep_space_before_year :: "string \<Rightarrow> string" where
  "clean_call_number_keep_space_before_year s =
     (if s = [] then []
      else sub_space_not_before_year (collapse_ws (strip s)))"

section \<open>Splitting the availability string\<close>

text \<open>
  \<open>re.match(r'^([^;]*);[^;]*;([^;]*);.*$', s)\<close>. Each \<open>[^;]*\<close> stops at the next
  semicolon and nowhere else. The tail \<open>.*$\<close> succeeds when the text after the third
  semicolon has no line feed, or a single one as its last character: \<open>.\<close> does not
  match a line feed. The result holds groups 1 and 2.
\<close>

definition not_semi :: "char \<Rightarrow> bool" where
  "not_semi c = (c \<noteq> CHR '';'')"

definition not_newline :: "char \<Rightarrow> bool" where
  "not_newline c = (c \<noteq> CHR 0x0A)"

definition dot_star_dollar :: "string \<Rightarrow> bool" where
  "dot_star_dollar t = at_dollar (dropWhile not_newline t)"

definition match_availability :: "string \<Rightarrow> (string \<times> string) option" where
  "match_availability s =
     (case dropWhile not_semi s of
        [] \<Rightarrow> None
      | _ # t1 \<Rightarrow>
          (case dropWhile not_semi t1 of
             [] \<Rightarrow> None
           | _ # t2 \<Rightarrow>
               (case dropWhile not_semi t2 of
                  [] \<Rightarrow> None
                | _ # t3 \<Rightarrow>
                    if dot_star_dollar t3
                    then Some (takeWhile not_semi s, takeWhile not_semi t2)
                    else None)))"

definition extract_from_physical_availability :: "string \<Rightarrow> string \<times> string" where
  "extract_from_physical_availability text =
     (if text = [] then ([], [])
      else
        let s = strip text in
        case match_availability s of
          Some (g1, g2) \<Rightarrow> (strip g1, strip g2)
        | None \<Rightarrow> (s, []))"

section \<open>Parsing a call number into a sort key\<close>

subsection \<open>Numbers\<close>

text \<open>
  A slot of the key holds a Python number: an \<open>int\<close>, a finite \<open>float\<close> or
  \<open>float('inf')\<close>. Python compares them by value, so one type serves: a rational or
  plus infinity.
\<close>

datatype xnum = Fin rat | PInf

datatype error = ValueError | TypeError | KeyError

definition digit_val :: "char \<Rightarrow> nat" where
  "digit_val c = code c - 48"

definition digits_value :: "string \<Rightarrow> nat" where
  "digits_value ds = foldl (\<lambda>n c. 10 * n + digit_val c) 0 ds"

text \<open>
  \<open>int(ds)\<close> on a run of ASCII digits. Python's integers are unbounded, but the
  conversion of a text of more than \<open>sys.get_int_max_str_digits()\<close> digits, 4300 unless
  the interpreter is told otherwise, raises \<open>ValueError\<close>; leading zeros count. The
  program leaves the limit as it is. On a text that is not a run of digits the model
  raises as well.
\<close>

definition int_max_str_digits :: nat where
  "int_max_str_digits = 4300"

definition py_int :: "string \<Rightarrow> error + nat" where
  "py_int ds =
     (if ds \<noteq> [] \<and> list_all is_digit ds
      then (if int_max_str_digits < length ds then Inl ValueError else Inr (digits_value ds))
      else Inl ValueError)"

text \<open>
  \<open>float(t)\<close> on a numeral \<open>digits\<close> or \<open>digits.digits\<close>. Python returns the double
  nearest to the decimal value, or infinity when the value is too large. The rounding of
  a rational to a double is the parameter \<open>rnd\<close>; the decimal value is computed here.
\<close>

definition is_decimal :: "string \<Rightarrow> bool" where
  "is_decimal t =
     (let ip = takeWhile is_digit t; r = dropWhile is_digit t in
      ip \<noteq> [] \<and>
      (r = [] \<or> (hd r = CHR ''.'' \<and> tl r \<noteq> [] \<and> list_all is_digit (tl r))))"

definition decimal_value :: "string \<Rightarrow> rat" where
  "decimal_value t =
     (let ip = takeWhile is_digit t; fp = drop (Suc (length ip)) t in
      of_nat (digits_value ip) + of_nat (digits_value fp) / 10 ^ length fp)"

definition py_float :: "(rat \<Rightarrow> xnum) \<Rightarrow> string \<Rightarrow> error + xnum" where
  "py_float rnd t = (if is_decimal t then Inr (rnd (decimal_value t)) else Inl ValueError)"

subsection \<open>Normalising the raw text\<close>

text \<open>
  \<open>s.upper()\<close> on Latin-1: the ASCII and the accented small letters move down by 32,
  the sharp s becomes \<open>SS\<close>. The micro sign and the y with diaeresis have capitals
  outside Latin-1; they stay, being as foreign to every pattern of the program as their
  capitals are.
\<close>

definition upper_char :: "char \<Rightarrow> string" where
  "upper_char c =
     (let n = code c in
      if 97 \<le> n \<and> n \<le> 122 then [char_of (n - 32)]
      else if n = 223 then ''SS''
      else if 224 \<le> n \<and> n \<le> 254 \<and> n \<noteq> 247 then [char_of (n - 32)]
      else [c])"

definition upper :: "string \<Rightarrow> string" where
  "upper s = concat (map upper_char s)"

text \<open>
  \<open>s.replace(old, ".")\<close> for a pattern \<open>old\<close> of two characters \<open>a\<close>, \<open>b\<close>: the
  occurrences are replaced from left to right, without overlap.
\<close>

fun replace2 :: "char \<Rightarrow> char \<Rightarrow> string \<Rightarrow> string" where
  "replace2 a b (x # y # zs) =
     (if x = a \<and> y = b then CHR ''.'' # replace2 a b zs else x # replace2 a b (y # zs))"
| "replace2 a b zs = zs"

definition normalize :: "string \<Rightarrow> string" where
  "normalize raw =
     strip (replace2 CHR '' '' CHR ''.'' (replace2 CHR ''.'' CHR ''.''
       (collapse_ws (upper (strip raw)))))"

subsection \<open>Classification letters and number\<close>

text \<open>
  \<open>re.match(r"\s*([A-Z]{1,3})\s*([0-9]+(?:\.[0-9]+)?)?", s)\<close>. Every part is greedy
  and nothing follows the optional number, so the match is the longest one. The result
  is \<open>(letters, number, m.end())\<close>, or \<open>("", inf, 0)\<close> without a match.
\<close>

definition number_group :: "string \<Rightarrow> string" where
  "number_group t =
     (let ip = takeWhile is_digit t; r = dropWhile is_digit t in
      if ip = [] then []
      else
        (case r of
           d # f # _ \<Rightarrow>
             if d = CHR ''.'' \<and> is_digit f then ip @ d # takeWhile is_digit (tl r) else ip
         | _ \<Rightarrow> ip))"

definition parse_class_and_number ::
  "(rat \<Rightarrow> xnum) \<Rightarrow> string \<Rightarrow> error + (string \<times> xnum \<times> nat)" where
  "parse_class_and_number rnd s =
     (let s1 = dropWhile is_space s;
          letters = take 3 (takeWhile is_upper s1)
      in
        if letters = [] then Inr ([], PInf, 0)
        else
          let s2 = dropWhile is_space (drop (length letters) s1);
              g2 = number_group s2;
              m_end = length s - length s2 + length g2
          in
            if g2 = [] then Inr (letters, PInf, m_end)
            else
              (case py_float rnd g2 of
                 Inl e \<Rightarrow> Inl e
               | Inr num \<Rightarrow> Inr (letters, num, m_end)))"

subsection \<open>Cutters and year\<close>

text \<open>
  One attempt of \<open>\.?\s*([A-Z])\s*([0-9]+)\<close> at the head of a text: the groups and the
  text left after the match. The classes that follow one another are disjoint, so no
  backtracking finds a match that the greedy reading misses.
\<close>

definition cutter_match :: "string \<Rightarrow> ((char \<times> string) \<times> string) option" where
  "cutter_match s =
     (let s0 = (case s of [] \<Rightarrow> [] | c # cs \<Rightarrow> if c = CHR ''.'' then cs else s) in
      case dropWhile is_space s0 of
        [] \<Rightarrow> None
      | l # s2 \<Rightarrow>
          if \<not> is_upper l then None
          else
            let s3 = dropWhile is_space s2; ds = takeWhile is_digit s3 in
            if ds = [] then None else Some ((l, ds), dropWhile is_digit s3))"

text \<open>
  \<open>_cutter_re.finditer(s)\<close>: the pattern is tried at each position from the left; after
  a match the search goes on where the match ended.
\<close>

function cutter_finditer :: "string \<Rightarrow> (char \<times> string) list" where
  "cutter_finditer [] = []"
| "cutter_finditer (c # cs) =
     (case cutter_match (c # cs) of
        Some (g, r) \<Rightarrow> g # cutter_finditer r
      | None \<Rightarrow> cutter_finditer cs)"
  by pat_completeness auto
termination
proof (relation "measure length")
  fix c cs g r x2
  assume m: "cutter_match (c # cs) = Some x2" and x2: "(g, r) = x2"
  define s0 where "s0 = (if c = CHR ''.'' then cs else c # cs)"
  have l0: "length s0 \<le> length (c # cs)"
    by (simp add: s0_def)
  from m x2 obtain l s2 where d: "dropWhile is_space s0 = l # s2"
    and r: "r = dropWhile is_digit (dropWhile is_space s2)"
    by (auto simp: cutter_match_def s0_def [symmetric] Let_def split: list.splits if_splits)
  have "length (l # s2) \<le> length s0"
    using length_dropWhile_le [of is_space s0] d by simp
  moreover have "length r \<le> length s2"
    unfolding r
    using length_dropWhile_le [of is_digit "dropWhile is_space s2"]
      length_dropWhile_le [of is_space s2] by linarith
  ultimately have "length r < length (c # cs)"
    using l0 by simp
  then show "(r, c # cs) \<in> measure length"
    by simp
qed simp_all

text \<open>
  \<open>(?:^|[^0-9])([12][0-9]{3})(?![0-9])\<close>. \<open>year_here\<close> reads group 1 and the
  look-ahead at the head of a text.
\<close>

definition year_here :: "string \<Rightarrow> bool" where
  "year_here t =
     (case t of
        a # b # c # d # r \<Rightarrow>
          (a = CHR ''1'' \<or> a = CHR ''2'') \<and> is_digit b \<and> is_digit c \<and> is_digit d \<and>
          (case r of [] \<Rightarrow> True | e # _ \<Rightarrow> \<not> is_digit e)
      | _ \<Rightarrow> False)"

text \<open>
  \<open>_year_re.finditer(s)\<close>, yielding group 1 of each match. The flag tells whether the
  position is the start of the string, where \<open>^\<close> holds; elsewhere the match takes one
  character that is not a digit before the four digits.
\<close>

fun year_finditer :: "bool \<Rightarrow> string \<Rightarrow> string list" where
  "year_finditer at_start [] = []"
| "year_finditer at_start (c # cs) =
     (if at_start \<and> year_here (c # cs) then take 4 (c # cs) # year_finditer False (drop 3 cs)
      else if \<not> is_digit c \<and> year_here cs then take 4 cs # year_finditer False (drop 4 cs)
      else year_finditer False cs)"

text \<open>
  \<open>_parse_cutters_and_extras\<close>: the cutters in their order, and the year of the last
  match of the year pattern, infinity without one.
\<close>

fun cutters_of :: "(char \<times> string) list \<Rightarrow> error + (string \<times> xnum) list" where
  "cutters_of [] = Inr []"
| "cutters_of ((l, ds) # ms) =
     (case py_int ds of
        Inl e \<Rightarrow> Inl e
      | Inr n \<Rightarrow>
          (case cutters_of ms of
             Inl e \<Rightarrow> Inl e
           | Inr cs \<Rightarrow> Inr (([l], Fin (of_nat n)) # cs)))"

definition last_match :: "string list \<Rightarrow> string option" where
  "last_match ys = foldl (\<lambda>last y. Some y) None ys"

definition parse_cutters_and_extras :: "string \<Rightarrow> error + ((string \<times> xnum) list \<times> xnum)" where
  "parse_cutters_and_extras s =
     (case cutters_of (cutter_finditer s) of
        Inl e \<Rightarrow> Inl e
      | Inr cutters \<Rightarrow>
          (case last_match (year_finditer True s) of
             None \<Rightarrow> Inr (cutters, PInf)
           | Some g \<Rightarrow>
               (case py_int g of
                  Inl e \<Rightarrow> Inl e
                | Inr y \<Rightarrow> Inr (cutters, Fin (of_nat y)))))"

subsection \<open>The sort key\<close>

type_synonym sort_key =
  "string \<times> xnum \<times> string \<times> xnum \<times> string \<times> xnum \<times> string \<times> xnum \<times> xnum"

definition all_missing :: sort_key where
  "all_missing = (''ZZZ'', PInf, [], PInf, [], PInf, [], PInf, PInf)"

text \<open>
  \<open>lc_sort_key\<close>. Unpacking the padded list into three pairs raises unless the list has
  exactly three elements. The test \<open>main_num == main_num\<close> only fails for a NaN, which
  \<open>float\<close> never returns on a decimal numeral and \<^typ>\<open>xnum\<close> does not contain.
\<close>

definition lc_sort_key :: "(rat \<Rightarrow> xnum) \<Rightarrow> string \<Rightarrow> error + sort_key" where
  "lc_sort_key rnd raw =
     (if raw = [] then Inr all_missing
      else
        let s = normalize raw in
        case parse_class_and_number rnd s of
          Inl e \<Rightarrow> Inl e
        | Inr (letters, main_num, idx) \<Rightarrow>
            (case parse_cutters_and_extras (drop idx s) of
               Inl e \<Rightarrow> Inl e
             | Inr (cutters, year) \<Rightarrow>
                 (case take 3 (cutters @ replicate 3 ([], PInf)) of
                    [(c1l, c1n), (c2l, c2n), (c3l, c3n)] \<Rightarrow>
                      Inr (if letters = [] then ''ZZZ'' else letters, main_num,
                           c1l, c1n, c2l, c2n, c3l, c3n, year)
                  | _ \<Rightarrow> Inl ValueError)))"

subsection \<open>Comparing keys\<close>

text \<open>
  Python orders strings by code point, a proper prefix before its extensions, and
  tuples by the first position where they differ.
\<close>

fun str_less :: "string \<Rightarrow> string \<Rightarrow> bool" where
  "str_less [] [] = False"
| "str_less [] (y # ys) = True"
| "str_less (x # xs) [] = False"
| "str_less (x # xs) (y # ys) = (if x = y then str_less xs ys else code x < code y)"

fun num_less :: "xnum \<Rightarrow> xnum \<Rightarrow> bool" where
  "num_less (Fin a) (Fin b) = (a < b)"
| "num_less (Fin a) PInf = True"
| "num_less PInf b = False"

fun key_less :: "sort_key \<Rightarrow> sort_key \<Rightarrow> bool" where
  "key_less (l, n, a, x, b, y, c, z, yr) (l', n', a', x', b', y', c', z', yr') =
     (if l \<noteq> l' then str_less l l'
      else if n \<noteq> n' then num_less n n'
      else if a \<noteq> a' then str_less a a'
      else if x \<noteq> x' then num_less x x'
      else if b \<noteq> b' then str_less b b'
      else if y \<noteq> y' then num_less y y'
      else if c \<noteq> c' then str_less c c'
      else if z \<noteq> z' then num_less z z'
      else if yr \<noteq> yr' then num_less yr yr'
      else False)"

text \<open>
  \<open>sorted(rows, key=...)\<close> is a stable sort that compares keys with \<open><\<close> alone. It
  is modelled by stable insertion: each element, taken in input order, goes before the
  first element whose key is greater.
\<close>

fun insert_sorted :: "('a \<Rightarrow> sort_key) \<Rightarrow> 'a \<Rightarrow> 'a list \<Rightarrow> 'a list" where
  "insert_sorted key x [] = [x]"
| "insert_sorted key x (y # ys) =
     (if key_less (key x) (key y) then x # y # ys else y # insert_sorted key x ys)"

definition py_sorted :: "('a \<Rightarrow> sort_key) \<Rightarrow> 'a list \<Rightarrow> 'a list" where
  "py_sorted key xs = foldl (\<lambda>acc x. insert_sorted key x acc) [] xs"

section \<open>Records and the ranking pass\<close>

text \<open>
  A record comes from \<open>csv.DictReader\<close>: a dictionary from the column names to the
  cells of one line, kept as an association list. The cell of a column that a short line
  does not reach is \<open>None\<close>. \<open>row.get(k, "")\<close> is \<open>get_default\<close>, \<open>row.get(k) or ""\<close>
  is \<open>getf\<close>, \<open>row[k] = v\<close> is \<^const>\<open>AList.update\<close> and \<open>row.pop(k, None)\<close> is
  \<^const>\<open>AList.delete\<close>.
\<close>

type_synonym row = "(string \<times> string option) list"

definition get_default :: "row \<Rightarrow> string \<Rightarrow> string option" where
  "get_default row k = (case map_of row k of None \<Rightarrow> Some [] | Some v \<Rightarrow> v)"

definition or_empty :: "string option \<Rightarrow> string" where
  "or_empty v = (case v of None \<Rightarrow> [] | Some t \<Rightarrow> t)"

definition getf :: "row \<Rightarrow> string \<Rightarrow> string" where
  "getf row k = or_empty (case map_of row k of None \<Rightarrow> None | Some v \<Rightarrow> v)"

fun best_loop :: "row \<Rightarrow> string list \<Rightarrow> string" where
  "best_loop row [] = []"
| "best_loop row (k # ks) =
     (let v = strip (getf row k) in if v \<noteq> [] then v else best_loop row ks)"

definition best_call_number_for_sort :: "row \<Rightarrow> string" where
  "best_call_number_for_sort row =
     best_loop row [''LC Call Number'', ''Local Call Number'', ''CNfromPA'']"

text \<open>
  \<open>re.sub(r"\band others\b", "", s, flags=re.IGNORECASE)\<close>. \<open>is_word\<close> is the class
  \<open>\w\<close> on Latin-1. A match needs a boundary before its first letter, so the character
  before it is not a word character, and a boundary after its last.
\<close>

definition is_word :: "char \<Rightarrow> bool" where
  "is_word c =
     (let n = code c in
      (48 \<le> n \<and> n \<le> 57) \<or> (65 \<le> n \<and> n \<le> 90) \<or> n = 95 \<or> (97 \<le> n \<and> n \<le> 122) \<or>
      n \<in> {170, 178, 179, 181, 185, 186, 188, 189, 190} \<or>
      (192 \<le> n \<and> n \<le> 214) \<or> (216 \<le> n \<and> n \<le> 246) \<or> 248 \<le> n)"

definition lower_ascii :: "char \<Rightarrow> char" where
  "lower_ascii c = (if is_upper c then char_of (code c + 32) else c)"

definition and_others_here :: "string \<Rightarrow> bool" where
  "and_others_here t =
     (map lower_ascii (take 10 t) = ''and others'' \<and>
      (case drop 10 t of [] \<Rightarrow> True | e # _ \<Rightarrow> \<not> is_word e))"

fun sub_and_others :: "bool \<Rightarrow> string \<Rightarrow> string" where
  "sub_and_others prev_word [] = []"
| "sub_and_others prev_word (c # cs) =
     (if \<not> prev_word \<and> and_others_here (c # cs) then sub_and_others True (drop 9 cs)
      else c # sub_and_others (is_word c) cs)"

text \<open>
  The cleaning of the fields of a record, lines 154 to 164 of the script. The two
  functions that receive \<open>row.get(k, "")\<close> for the availability and the local call
  number begin with a test \<open>if not s\<close>, so they take \<open>None\<close> as they take the empty
  text. The cell of the LC call number goes to \<open>re.sub\<close> as it is, which raises
  \<open>TypeError\<close> on \<open>None\<close>.
\<close>

definition clean_fields :: "row \<Rightarrow> error + row" where
  "clean_fields row =
     (let (location, cn_from_pa) =
            extract_from_physical_availability
              (or_empty (get_default row ''Physical Availability''));
          row1 = AList.update ''Physical Availability'' (Some location) row;
          row2 = AList.update ''CNfromPA''
                   (Some (clean_call_number_keep_space_before_year cn_from_pa)) row1;
          row3 = AList.update ''Local Call Number''
                   (Some (clean_call_number_keep_space_before_year
                      (or_empty (get_default row2 ''Local Call Number''))))
                   row2
      in
        case get_default row3 ''LC Call Number'' of
          None \<Rightarrow> Inl TypeError
        | Some lc_raw \<Rightarrow>
            let lc_no_others = strip (sub_and_others False lc_raw) in
            Inr (AList.update ''LC Call Number''
                   (Some (clean_call_number_keep_space_before_year lc_no_others)) row3))"

text \<open>
  What the reader yields for one line: the cells under the names of the header, and the
  cells of a line longer than the header, which \<open>DictReader\<close> keeps as a list under
  the key \<open>None\<close>.
\<close>

record reader_row =
  cells :: row
  surplus :: "string list"

text \<open>
  A record between the two passes. Its dictionary holds entries of four kinds, told
  apart by their keys: the cells under the column names, the surplus cells under
  \<open>None\<close>, the identifier under \<open>_row_id\<close> and the sort key under \<open>_lc_sort_key\<close>.
  Each kind has its field here. An assignment to \<open>_row_id\<close> or \<open>_lc_sort_key\<close>
  replaces what the dictionary held under that name, so a cell of that name is removed
  from the cells.
\<close>

record cleaned_row =
  row_fields :: row
  row_surplus :: "string list"
  row_id :: nat
  lc_key :: sort_key

definition clean_row :: "(rat \<Rightarrow> xnum) \<Rightarrow> nat \<Rightarrow> reader_row \<Rightarrow> error + cleaned_row" where
  "clean_row rnd rid r =
     (let row0 = AList.delete ''_row_id'' (cells r) in
      case clean_fields row0 of
        Inl e \<Rightarrow> Inl e
      | Inr row4 \<Rightarrow>
          (case lc_sort_key rnd (best_call_number_for_sort row4) of
             Inl e \<Rightarrow> Inl e
           | Inr k \<Rightarrow>
               Inr \<lparr>row_fields = AList.delete ''_lc_sort_key'' row4, row_surplus = surplus r,
                    row_id = rid, lc_key = k\<rparr>))"

text \<open>The first pass: the counter \<open>row_id\<close> is incremented before each record.\<close>

fun first_pass :: "(rat \<Rightarrow> xnum) \<Rightarrow> nat \<Rightarrow> reader_row list \<Rightarrow> error + cleaned_row list" where
  "first_pass rnd rid [] = Inr []"
| "first_pass rnd rid (row # rows) =
     (case clean_row rnd (rid + 1) row of
        Inl e \<Rightarrow> Inl e
      | Inr r \<Rightarrow>
          (case first_pass rnd (rid + 1) rows of
             Inl e \<Rightarrow> Inl e
           | Inr rs \<Rightarrow> Inr (r # rs)))"

text \<open>\<open>{r["_row_id"]: i + 1 for i, r in enumerate(sorted_rows)}\<close>\<close>

definition id_to_index :: "cleaned_row list \<Rightarrow> (nat \<rightharpoonup> nat)" where
  "id_to_index sorted_rows =
     foldl (\<lambda>m (i, r). m(row_id r \<mapsto> i + 1)) Map.empty (enumerate 0 sorted_rows)"

text \<open>
  The final loop runs over \<open>cleaned_rows\<close>. A missing identifier would raise
  \<open>KeyError\<close>. The rank is assigned to \<open>LC_SortIndex\<close>, replacing a cell of that name,
  and the two internal entries are popped. \<open>DictWriter.writerow\<close> raises \<open>ValueError\<close>
  on a dictionary with a key that is not a column of the output; every name of the
  dictionary is one, so this is the case exactly when the record has surplus cells under
  \<open>None\<close>. The records written before stay in the file. The result is the list of the
  records written, each with its rank, and the error that ended the loop, if any.
\<close>

fun final_write ::
  "(nat \<rightharpoonup> nat) \<Rightarrow> cleaned_row list \<Rightarrow> (row \<times> nat) list \<times> error option" where
  "final_write m [] = ([], None)"
| "final_write m (r # rs) =
     (case m (row_id r) of
        None \<Rightarrow> ([], Some KeyError)
      | Some i \<Rightarrow>
          if row_surplus r \<noteq> [] then ([], Some ValueError)
          else
            let (out, e) = final_write m rs in
            ((AList.delete ''LC_SortIndex'' (row_fields r), i) # out, e))"

text \<open>
  The two passes, lines 147 to 184. An error of the first pass ends the run before
  anything is written.
\<close>

definition ranking_pass ::
  "(rat \<Rightarrow> xnum) \<Rightarrow> reader_row list \<Rightarrow> (row \<times> nat) list \<times> error option" where
  "ranking_pass rnd rows =
     (case first_pass rnd 0 rows of
        Inl e \<Rightarrow> ([], Some e)
      | Inr cleaned_rows \<Rightarrow>
          final_write (id_to_index (py_sorted lc_key cleaned_rows)) cleaned_rows)"

section \<open>Notions of the specification\<close>

text \<open>
  The definitions of this section state what the specification says, in its own terms,
  to be compared with the functions above; with them come the auxiliary notions that
  the comparison needs.
\<close>

text \<open>
  Step (a) of cleaning, trimming: the whitespace that begins a text is dropped, and so
  is the whitespace that ends it.
\<close>

fun trim_start :: "string \<Rightarrow> string" where
  "trim_start [] = []"
| "trim_start (c # cs) = (if is_space c then trim_start cs else c # cs)"

fun trim_end :: "string \<Rightarrow> string" where
  "trim_end [] = []"
| "trim_end (c # cs) = (if list_all is_space (c # cs) then [] else c # trim_end cs)"

definition trim :: "string \<Rightarrow> string" where
  "trim s = trim_end (trim_start s)"

text \<open>
  Step (b): every run of whitespace becomes one space. The text is read from the left;
  the flag tells whether the character just read was whitespace, and a whitespace
  character is written, as a space, only when it begins a run.
\<close>

fun squeeze :: "bool \<Rightarrow> string \<Rightarrow> string" where
  "squeeze in_run [] = []"
| "squeeze in_run (c # cs) =
     (if is_space c then (if in_run then squeeze True cs else CHR '' '' # squeeze True cs)
      else c # squeeze False cs)"

definition collapse_runs :: "string \<Rightarrow> string" where
  "collapse_runs s = squeeze False s"

text \<open>Deleting every space of a text.\<close>

definition remove_blanks :: "string \<Rightarrow> string" where
  "remove_blanks t = filter (\<lambda>c. c \<noteq> CHR '' '') t"

text \<open>A text ends with a space followed by a numeral of four digits.\<close>

definition year_suffix :: "string \<Rightarrow> bool" where
  "year_suffix t =
     (5 \<le> length t \<and> t ! (length t - 5) = CHR '' '' \<and>
      list_all is_digit (drop (length t - 4) t))"

text \<open>
  Step (c) of cleaning: every space is deleted except the one before a numeral of four
  digits that ends the text.
\<close>

definition delete_spaces_except_year :: "string \<Rightarrow> string" where
  "delete_spaces_except_year t =
     (if year_suffix t
      then remove_blanks (take (length t - 5) t) @ drop (length t - 5) t
      else remove_blanks t)"

text \<open>The number of semicolons of a text.\<close>

definition semicolons :: "string \<Rightarrow> nat" where
  "semicolons s = length (filter (\<lambda>c. c = CHR '';'') s)"

text \<open>
  A strict total order: irreflexive, transitive, and any two elements are equal or
  related one way.
\<close>

definition strict_total :: "('a \<Rightarrow> 'a \<Rightarrow> bool) \<Rightarrow> bool" where
  "strict_total R =
     ((\<forall>a. \<not> R a a) \<and> (\<forall>a b c. R a b \<longrightarrow> R b c \<longrightarrow> R a c) \<and>
      (\<forall>a b. R a b \<or> a = b \<or> R b a))"

text \<open>The lexicographic order of pairs: the first components decide unless equal.\<close>

definition lex_pair ::
  "('a \<Rightarrow> 'a \<Rightarrow> bool) \<Rightarrow> ('b \<Rightarrow> 'b \<Rightarrow> bool) \<Rightarrow> 'a \<times> 'b \<Rightarrow> 'a \<times> 'b \<Rightarrow> bool" where
  "lex_pair R S p q = (if fst p \<noteq> fst q then R (fst p) (fst q) else S (snd p) (snd q))"

text \<open>A list is in ascending order of keys: no element has a greater key than a later one.\<close>

definition ordered_by :: "('a \<Rightarrow> sort_key) \<Rightarrow> 'a list \<Rightarrow> bool" where
  "ordered_by key xs = sorted_wrt (\<lambda>x y. \<not> key_less (key y) (key x)) xs"

text \<open>
  The slots of a key, and the values the parser gives to the matches of the cutter
  pattern and to the last match of the year pattern.
\<close>

definition cutter_pairs :: "(char \<times> string) list \<Rightarrow> (string \<times> xnum) list" where
  "cutter_pairs ms = map (\<lambda>(l, ds). ([l], Fin (of_nat (digits_value ds)))) ms"

definition year_of :: "string list \<Rightarrow> xnum" where
  "year_of ys = (if ys = [] then PInf else Fin (of_nat (digits_value (last ys))))"

definition cutter_slots :: "sort_key \<Rightarrow> (string \<times> xnum) list" where
  "cutter_slots k = (case k of (l, n, a, x, b, y, c, z, yr) \<Rightarrow> [(a, x), (b, y), (c, z)])"

definition key_year :: "sort_key \<Rightarrow> xnum" where
  "key_year k = (case k of (l, n, a, x, b, y, c, z, yr) \<Rightarrow> yr)"

definition key_letters :: "sort_key \<Rightarrow> string" where
  "key_letters k = (case k of (l, n, a, x, b, y, c, z, yr) \<Rightarrow> l)"

definition key_number :: "sort_key \<Rightarrow> xnum" where
  "key_number k = (case k of (l, n, a, x, b, y, c, z, yr) \<Rightarrow> n)"

text \<open>
  The cutter groups of a text, read from left to right: at each capital letter that is
  followed, after optional whitespace, by one or more digits, the letter and the number
  those digits write. (A period and whitespace before the letter are optional, so they
  do not decide whether a group is there.)
\<close>

definition starts_with_digit :: "string \<Rightarrow> bool" where
  "starts_with_digit t = (case t of [] \<Rightarrow> False | d # _ \<Rightarrow> is_digit d)"

fun cutter_groups :: "string \<Rightarrow> (string \<times> xnum) list" where
  "cutter_groups [] = []"
| "cutter_groups (l # r) =
     (if is_upper l \<and> starts_with_digit (dropWhile is_space r)
      then ([l], Fin (of_nat (digits_value (takeWhile is_digit (dropWhile is_space r)))))
             # cutter_groups r
      else cutter_groups r)"

text \<open>
  The same scan, keeping the digits of each group as they are written. A group is too
  long for \<open>int\<close> when it has more digits than the interpreter converts.
\<close>

fun cutter_texts :: "string \<Rightarrow> (char \<times> string) list" where
  "cutter_texts [] = []"
| "cutter_texts (l # r) =
     (if is_upper l \<and> starts_with_digit (dropWhile is_space r)
      then (l, takeWhile is_digit (dropWhile is_space r)) # cutter_texts r
      else cutter_texts r)"

definition cutter_too_long :: "string \<Rightarrow> bool" where
  "cutter_too_long t = list_ex (\<lambda>(l, ds). int_max_str_digits < length ds) (cutter_texts t)"

text \<open>
  The length of the classification segment of a normalised text: optional whitespace,
  one to three capital letters and, after optional whitespace, a number if there is
  one; nothing when no capital letter begins the text. The cutters and the year are
  read in the text after it. A raw text overflows when that text has a cutter group
  too long for \<open>int\<close>.
\<close>

definition class_end :: "string \<Rightarrow> nat" where
  "class_end s =
     (let s1 = dropWhile is_space s; n = min 3 (length (takeWhile is_upper s1)) in
      if n = 0 then 0
      else
        let s2 = dropWhile is_space (drop n s1) in
        length s - length s2 + length (number_group s2))"

definition after_class :: "string \<Rightarrow> string" where
  "after_class raw = drop (class_end (normalize raw)) (normalize raw)"

definition cutter_overflow :: "string \<Rightarrow> bool" where
  "cutter_overflow raw = cutter_too_long (after_class raw)"

text \<open>
  The cutter groups when the digits must follow the letter at once: a capital letter
  and, right after it, one or more digits.
\<close>

fun adjacent_cutter_groups :: "string \<Rightarrow> (string \<times> xnum) list" where
  "adjacent_cutter_groups [] = []"
| "adjacent_cutter_groups (l # r) =
     (if is_upper l \<and> starts_with_digit r
      then ([l], Fin (of_nat (digits_value (takeWhile is_digit r)))) # adjacent_cutter_groups r
      else adjacent_cutter_groups r)"

text \<open>
  The occurrences of a year in a text, from left to right: a numeral of four digits
  between 1000 and 2999 with no digit just before it and none just after it. The flag
  tells whether the character before the text is a digit. The year of a text is the
  last occurrence, infinity when there is none.
\<close>

definition year_numeral :: "string \<Rightarrow> bool" where
  "year_numeral t =
     (4 \<le> length t \<and> list_all is_digit (take 4 t) \<and>
      1000 \<le> digits_value (take 4 t) \<and> digits_value (take 4 t) \<le> 2999 \<and>
      \<not> starts_with_digit (drop 4 t))"

fun year_occurrences :: "bool \<Rightarrow> string \<Rightarrow> nat list" where
  "year_occurrences after_digit [] = []"
| "year_occurrences after_digit (c # cs) =
     (if \<not> after_digit \<and> year_numeral (c # cs)
      then digits_value (take 4 (c # cs)) # year_occurrences (is_digit c) cs
      else year_occurrences (is_digit c) cs)"

definition last_year :: "nat list \<Rightarrow> xnum" where
  "last_year ys = (if ys = [] then PInf else Fin (of_nat (last ys)))"

text \<open>
  A text has no classification segment: after optional whitespace it does not begin
  with a capital letter.
\<close>

definition class_missing :: "string \<Rightarrow> bool" where
  "class_missing s = (case dropWhile is_space s of [] \<Rightarrow> True | c # _ \<Rightarrow> \<not> is_upper c)"

text \<open>
  The shape of a cleaned text: every whitespace character is a space that the four
  digits ending the text follow.
\<close>

fun spaces_before_year :: "string \<Rightarrow> bool" where
  "spaces_before_year [] = True"
| "spaces_before_year (c # cs) =
     ((if is_space c then c = CHR '' '' \<and> four_digits_end cs else True) \<and>
      spaces_before_year cs)"

text \<open>
  What makes the ranking pass stop on a record: a line shorter than the header leaves
  the cell of the LC call number without a value; a line longer than the header has
  surplus cells; the text selected for ranking, once the fields are cleaned, has a
  cutter group too long for \<open>int\<close>. A record is sound when none of these holds.
\<close>

definition lc_cell_missing :: "row \<Rightarrow> bool" where
  "lc_cell_missing row = (map_of row ''LC Call Number'' = Some None)"

definition ranking_text :: "row \<Rightarrow> string" where
  "ranking_text row =
     (case clean_fields (AList.delete ''_row_id'' row) of
        Inl e \<Rightarrow> []
      | Inr cleaned \<Rightarrow> best_call_number_for_sort cleaned)"

definition sound_record :: "reader_row \<Rightarrow> bool" where
  "sound_record r =
     (\<not> lc_cell_missing (cells r) \<and> surplus r = [] \<and>
      \<not> cutter_overflow (ranking_text (cells r)))"

text \<open>
  The rank of the record at position \<open>i\<close> in a stable sort of a batch with keys
  \<open>ks\<close>: one more than the number of records that come before it, those with a
  smaller key and those with the same key and a smaller position. \<open>row_before\<close> is
  this order on the records between the passes, whose identifiers follow the positions.
\<close>

definition stable_rank :: "sort_key list \<Rightarrow> nat \<Rightarrow> nat" where
  "stable_rank ks i =
     Suc (length (filter (\<lambda>j. key_less (ks ! j) (ks ! i) \<or> (ks ! j = ks ! i \<and> j < i))
       [0..<length ks]))"

definition row_before :: "cleaned_row \<Rightarrow> cleaned_row \<Rightarrow> bool" where
  "row_before x y =
     (key_less (lc_key x) (lc_key y) \<or> (lc_key x = lc_key y \<and> row_id x < row_id y))"

section \<open>Cleaning a call number\<close>

lemma remove_blanks_simps [simp]:
  "remove_blanks [] = []"
  "remove_blanks (c # cs) = (if c = CHR '' '' then remove_blanks cs else c # remove_blanks cs)"
  by (simp_all add: remove_blanks_def)

lemma is_space_blank [simp]: "is_space CHR '' ''"
  by (simp add: is_space_def code_def)

lemma digit_not_space: "is_digit c \<Longrightarrow> \<not> is_space c"
  by (auto simp: is_digit_def is_space_def)

lemma digit_not_blank: "is_digit c \<Longrightarrow> c \<noteq> CHR '' ''"
  using digit_not_space by fastforce

lemma at_dollar_length: "at_dollar cs \<Longrightarrow> length cs \<le> 1"
  by (auto simp: at_dollar_def)

lemma sub_space_no_blank: "CHR '' '' \<notin> set cs \<Longrightarrow> sub_space_not_before_year cs = cs"
  by (induction cs) auto

lemma sub_space_keep:
  "four_digits_end d \<Longrightarrow> CHR '' '' \<notin> set d \<Longrightarrow> 
   sub_space_not_before_year (p @ CHR '' '' # d) = remove_blanks p @ CHR '' '' # d"
proof (induction p)
  case Nil
  then show ?case by (simp add: sub_space_no_blank)
next
  case (Cons c p)
  have "\<not> four_digits_end (p @ CHR '' '' # d)"
  proof
    assume "four_digits_end (p @ CHR '' '' # d)"
    then have "at_dollar (drop 4 (p @ CHR '' '' # d))" and "4 \<le> length (p @ CHR '' '' # d)"
      and dg: "list_all is_digit (take 4 (p @ CHR '' '' # d))"
      by (auto simp: four_digits_end_def)
    then have "length (p @ CHR '' '' # d) \<le> 5"
      using at_dollar_length by fastforce
    moreover have "4 \<le> length d" using Cons.prems by (simp add: four_digits_end_def)
    ultimately have "p = []" by (cases p) auto
    with dg show False by (simp add: is_digit_def code_def)
  qed
  with Cons show ?case by simp
qed

lemma sub_space_none:
  "(\<And>p d. t = p @ CHR '' '' # d \<Longrightarrow> \<not> four_digits_end d) \<Longrightarrow>
   sub_space_not_before_year t = remove_blanks t"
proof (induction t)
  case Nil
  then show ?case by simp
next
  case (Cons c t)
  have ih: "sub_space_not_before_year t = remove_blanks t"
  proof (rule Cons.IH)
    fix p d assume "t = p @ CHR '' '' # d"
    then have "c # t = (c # p) @ CHR '' '' # d" by simp
    then show "\<not> four_digits_end d" by (rule Cons.prems)
  qed
  show ?case
  proof (cases "c = CHR '' ''")
    case True
    then have "c # t = [] @ CHR '' '' # t" by simp
    then have "\<not> four_digits_end t" by (rule Cons.prems)
    with True ih show ?thesis by simp
  next
    case False
    with ih show ?thesis by simp
  qed
qed


lemma collapse_ws_only_blank:
  "c \<in> set (collapse_ws s) \<Longrightarrow> is_space c \<Longrightarrow> c = CHR '' ''"
  by (induction s rule: collapse_ws.induct) (auto split: if_splits)

lemma newline_is_space: "is_space (CHR 0x0A)"
  by (simp add: is_space_def code_def)

lemma four_digits_end_plain:
  assumes "\<And>c. c \<in> set d \<Longrightarrow> is_space c \<Longrightarrow> c = CHR '' ''"
  shows "four_digits_end d \<longleftrightarrow> length d = 4 \<and> list_all is_digit d"
proof
  assume f: "four_digits_end d"
  then have "drop 4 d = [] \<or> drop 4 d = [CHR 0x0A]"
    by (simp add: four_digits_end_def at_dollar_def)
  moreover have "drop 4 d \<noteq> [CHR 0x0A]"
  proof
    assume e: "drop 4 d = [CHR 0x0A]"
    then have "CHR 0x0A \<in> set (drop 4 d)" by simp
    then have "CHR 0x0A \<in> set d" by (rule in_set_dropD)
    then have "CHR 0x0A = CHR '' ''" using assms newline_is_space by blast
    then show False by simp
  qed
  ultimately have "drop 4 d = []" by blast
  with f show "length d = 4 \<and> list_all is_digit d"
    by (simp add: four_digits_end_def)
next
  assume "length d = 4 \<and> list_all is_digit d"
  then show "four_digits_end d"
    by (simp add: four_digits_end_def at_dollar_def)
qed

lemma year_suffix_iff:
  "year_suffix t \<longleftrightarrow> (\<exists>p d. t = p @ CHR '' '' # d \<and> length d = 4 \<and> list_all is_digit d)"
proof
  assume y: "year_suffix t"
  define n where "n = length t - 5"
  have n: "n < length t" "length t - 4 = Suc n" "length t = n + 5"
    using y by (auto simp: year_suffix_def n_def)
  have "t = take n t @ t ! n # drop (Suc n) t"
    using n(1) by (simp add: id_take_nth_drop)
  moreover have "t ! n = CHR '' ''" using y by (simp add: year_suffix_def n_def)
  moreover have "list_all is_digit (drop (Suc n) t)" using y n by (simp add: year_suffix_def)
  moreover have "length (drop (Suc n) t) = 4" using n by simp
  ultimately show "\<exists>p d. t = p @ CHR '' '' # d \<and> length d = 4 \<and> list_all is_digit d"
    by metis
next
  assume "\<exists>p d. t = p @ CHR '' '' # d \<and> length d = 4 \<and> list_all is_digit d"
  then obtain p d where t: "t = p @ CHR '' '' # d" and d: "length d = 4" "list_all is_digit d"
    by blast
  show "year_suffix t"
    using d by (simp add: year_suffix_def t nth_append)
qed

lemma delete_spaces_refines:
  assumes "\<And>c. c \<in> set t \<Longrightarrow> is_space c \<Longrightarrow> c = CHR '' ''"
  shows "sub_space_not_before_year t = delete_spaces_except_year t"
proof (cases "year_suffix t")
  case True
  then obtain p d where t: "t = p @ CHR '' '' # d" and d: "length d = 4" "list_all is_digit d"
    unfolding year_suffix_iff by blast
  have f: "four_digits_end d"
    using d by (simp add: four_digits_end_def at_dollar_def)
  have nb: "CHR '' '' \<notin> set d"
    using d(2) digit_not_blank by (auto simp: list_all_iff)
  have "sub_space_not_before_year t = remove_blanks p @ CHR '' '' # d"
    unfolding t using f nb by (rule sub_space_keep)
  moreover have "delete_spaces_except_year t = remove_blanks p @ CHR '' '' # d"
    using True d by (simp add: delete_spaces_except_year_def t)
  ultimately show ?thesis by simp
next
  case False
  have "sub_space_not_before_year t = remove_blanks t"
  proof (rule sub_space_none)
    fix p d assume t: "t = p @ CHR '' '' # d"
    have "\<And>c. c \<in> set d \<Longrightarrow> is_space c \<Longrightarrow> c = CHR '' ''"
      using assms by (simp add: t)
    then have "four_digits_end d \<longleftrightarrow> length d = 4 \<and> list_all is_digit d"
      by (rule four_digits_end_plain)
    with False t show "\<not> four_digits_end d"
      unfolding year_suffix_iff by blast
  qed
  with False show ?thesis by (simp add: delete_spaces_except_year_def)
qed

lemma remove_blanks_no_space:
  assumes "\<And>c. c \<in> set t \<Longrightarrow> is_space c \<Longrightarrow> c = CHR '' ''"
  shows "list_all (\<lambda>c. \<not> is_space c) (remove_blanks t)"
  using assms by (auto simp: list_all_iff remove_blanks_def)

lemma strip_all_space: "list_all is_space s \<Longrightarrow> strip s = []"
proof -
  assume "list_all is_space s"
  then have "dropWhile is_space s = []"
    by (induction s) auto
  then show ?thesis by (simp only: strip_def dropWhile.simps rev.simps)
qed

lemma strip_id:
  assumes "r = [] \<or> (\<not> is_space (hd r) \<and> \<not> is_space (last r))"
  shows "strip r = r"
proof (cases "r = []")
  case True
  then show ?thesis by (simp add: strip_def)
next
  case False
  with assms have h: "\<not> is_space (hd r)" and l: "\<not> is_space (last r)" by simp_all
  have a: "dropWhile is_space r = r" using False h by (cases r) auto
  have "rev r = rev (butlast r @ [last r])" using False by simp
  then have e: "rev r = last r # rev (butlast r)"
    by (simp only: rev_append rev.simps append.simps)
  have "dropWhile is_space (last r # rev (butlast r)) = last r # rev (butlast r)"
    using l by simp
  then have b: "dropWhile is_space (rev r) = rev r"
    by (simp only: e [symmetric])
  show ?thesis unfolding strip_def a b by simp
qed

text \<open>
  The two first steps of the code are the steps (a) and (b) of the specification:
  \<open>strip\<close> trims, and the substitution of \<open>\s+\<close> collapses the runs.
\<close>

lemma trim_start_dropWhile: "trim_start s = dropWhile is_space s"
  by (induction s) simp_all

lemma trim_end_rev: "trim_end t = rev (dropWhile is_space (rev t))"
proof (induction t)
  case Nil
  then show ?case by simp
next
  case (Cons c cs)
  show ?case
  proof (cases "list_all is_space (c # cs)")
    case True
    then have "dropWhile is_space (rev (c # cs)) = []"
      by (simp add: list_all_iff)
    with True show ?thesis by simp
  next
    case False
    show ?thesis
    proof (cases "list_all is_space cs")
      case True
      with False have c: "\<not> is_space c" by simp
      have "dropWhile is_space (rev cs @ [c]) = [c]"
        using True c by (simp add: dropWhile_append list_all_iff)
      moreover have "trim_end cs = []"
        using True by (cases cs) simp_all
      ultimately show ?thesis using False by simp
    next
      case nc: False
      then have "dropWhile is_space (rev cs @ [c]) = dropWhile is_space (rev cs) @ [c]"
        by (simp add: dropWhile_append list_all_iff)
      with False Cons.IH show ?thesis by simp
    qed
  qed
qed

lemma strip_trim: "strip s = trim s"
  by (simp only: strip_def trim_def trim_start_dropWhile trim_end_rev)

lemma squeeze_True: "squeeze True cs = squeeze False (dropWhile is_space cs)"
  by (induction cs) simp_all

lemma collapse_ws_runs: "collapse_ws s = collapse_runs s"
  unfolding collapse_runs_def
  by (induction s rule: collapse_ws.induct) (simp_all add: squeeze_True)

text \<open>
  What trimming leaves: the text between the whitespace that begins the input and the
  whitespace that ends it, with no whitespace at either end.
\<close>

lemma trim_between:
  "\<exists>a b. s = a @ trim s @ b \<and> list_all is_space a \<and> list_all is_space b"
proof -
  have "s = takeWhile is_space s @ dropWhile is_space s" by simp
  moreover have "dropWhile is_space s
      = rev (dropWhile is_space (rev (dropWhile is_space s)))
        @ rev (takeWhile is_space (rev (dropWhile is_space s)))"
    by (metis rev_append rev_rev_ident takeWhile_dropWhile_id)
  ultimately have "s = takeWhile is_space s @ trim s
      @ rev (takeWhile is_space (rev (dropWhile is_space s)))"
    unfolding strip_trim [symmetric] strip_def by simp
  moreover have "list_all is_space (takeWhile is_space s)"
    by (induction s) simp_all
  moreover have "list_all is_space (rev (takeWhile is_space (rev (dropWhile is_space s))))"
    by (auto simp: list_all_iff dest: set_takeWhileD)
  ultimately show ?thesis by blast
qed

lemma trim_ends:
  "trim s \<noteq> [] \<Longrightarrow> \<not> is_space (hd (trim s)) \<and> \<not> is_space (last (trim s))"
proof -
  assume ne: "trim s \<noteq> []"
  let ?d = "dropWhile is_space s"
  let ?r = "dropWhile is_space (rev ?d)"
  have t: "trim s = rev ?r" by (simp only: strip_trim [symmetric] strip_def)
  with ne have r: "?r \<noteq> []" by simp
  then have l: "\<not> is_space (hd ?r)" by (rule hd_dropWhile)
  have "last (trim s) = hd ?r" unfolding t using r by (simp add: last_rev)
  with l have a: "\<not> is_space (last (trim s))" by simp
  have d: "?d \<noteq> []"
  proof
    assume "?d = []"
    then have "?r = []" by (simp only: rev.simps dropWhile.simps)
    with r show False by simp
  qed
  then have h: "\<not> is_space (hd ?d)" by (rule hd_dropWhile)
  have "\<exists>u. ?d = rev ?r @ u"
    by (metis rev_append rev_rev_ident takeWhile_dropWhile_id)
  then obtain u where "?d = rev ?r @ u" by blast
  then have "hd ?d = hd (rev ?r)" using r by (metis hd_append2 rev_is_Nil_conv)
  with h t have "\<not> is_space (hd (trim s))" by simp
  with a show ?thesis by simp
qed

text \<open>
  C4. Cleaning trims the text and collapses every run of whitespace to one space; then
  it deletes every space except the one before a numeral of four digits that ends the
  text. Without such an ending, and so for a text of whitespace only, no whitespace is
  left. \<open>"QA76.73 .C153 2019"\<close> becomes \<open>"QA76.73.C153 2019"\<close>; whitespace around a
  text and runs inside it go the same way, and the space before the final year stays.
\<close>

theorem clean_call_number_rule:
  "clean_call_number_keep_space_before_year s
     = delete_spaces_except_year (collapse_runs (trim s)) \<and>
   (\<not> year_suffix (collapse_runs (trim s)) \<longrightarrow>
      list_all (\<lambda>c. \<not> is_space c) (clean_call_number_keep_space_before_year s)) \<and>
   (list_all is_space s \<longrightarrow> clean_call_number_keep_space_before_year s = []) \<and>
   clean_call_number_keep_space_before_year ''QA76.73 .C153 2019'' = ''QA76.73.C153 2019'' \<and>
   clean_call_number_keep_space_before_year ''QA76 2019 '' = ''QA76 2019'' \<and>
   clean_call_number_keep_space_before_year [CHR 0x09, CHR '' '', CHR ''Q'', CHR ''A'',
       CHR '' '', CHR 0x09, CHR ''7'', CHR ''6'', CHR '' '', CHR '' '', CHR ''2'', CHR ''0'',
       CHR ''1'', CHR ''9'', CHR '' '', CHR 0x0A]
     = ''QA76 2019''"
proof -
  let ?t = "collapse_ws (strip s)"
  have ts: "collapse_runs (trim s) = ?t"
    by (simp only: strip_trim collapse_ws_runs)
  have ob: "\<And>c. c \<in> set ?t \<Longrightarrow> is_space c \<Longrightarrow> c = CHR '' ''"
    by (rule collapse_ws_only_blank)
  have e: "sub_space_not_before_year ?t = delete_spaces_except_year ?t"
    using ob by (rule delete_spaces_refines)
  have a': "clean_call_number_keep_space_before_year s = delete_spaces_except_year ?t"
  proof (cases "s = []")
    case True
    then show ?thesis
      by (simp add: clean_call_number_keep_space_before_year_def strip_def
          delete_spaces_except_year_def)
  next
    case False
    then show ?thesis
      by (simp add: clean_call_number_keep_space_before_year_def e)
  qed
  have b': "\<not> year_suffix ?t \<longrightarrow>
      list_all (\<lambda>c. \<not> is_space c) (clean_call_number_keep_space_before_year s)"
    using remove_blanks_no_space [OF ob] by (simp add: a' delete_spaces_except_year_def)
  have a: "clean_call_number_keep_space_before_year s
     = delete_spaces_except_year (collapse_runs (trim s))"
    using a' by (simp only: ts)
  have b: "\<not> year_suffix (collapse_runs (trim s)) \<longrightarrow>
      list_all (\<lambda>c. \<not> is_space c) (clean_call_number_keep_space_before_year s)"
    using b' by (simp only: ts)
  have c: "list_all is_space s \<longrightarrow> clean_call_number_keep_space_before_year s = []"
    by (simp add: clean_call_number_keep_space_before_year_def strip_all_space)
  have d: "clean_call_number_keep_space_before_year ''QA76.73 .C153 2019'' = ''QA76.73.C153 2019''"
    by (simp add: clean_call_number_keep_space_before_year_def strip_def is_space_def code_def
        four_digits_end_def is_digit_def at_dollar_def)
  have f: "clean_call_number_keep_space_before_year ''QA76 2019 '' = ''QA76 2019''"
    by (simp add: clean_call_number_keep_space_before_year_def strip_def is_space_def code_def
        four_digits_end_def is_digit_def at_dollar_def)
  have g: "clean_call_number_keep_space_before_year [CHR 0x09, CHR '' '', CHR ''Q'', CHR ''A'',
       CHR '' '', CHR 0x09, CHR ''7'', CHR ''6'', CHR '' '', CHR '' '', CHR ''2'', CHR ''0'',
       CHR ''1'', CHR ''9'', CHR '' '', CHR 0x0A]
     = ''QA76 2019''"
    by (simp add: clean_call_number_keep_space_before_year_def strip_def is_space_def code_def
        four_digits_end_def is_digit_def at_dollar_def)
  from a b c d f g show ?thesis by blast
qed

theorem clean_call_number_rule_witness:
  "collapse_runs (trim '' QA  76 .C15 19 '') = ''QA 76 .C15 19'' \<and>
   \<not> year_suffix ''QA 76 .C15 19'' \<and>
   clean_call_number_keep_space_before_year '' QA  76 .C15 19 '' = ''QA76.C1519'' \<and>
   collapse_runs (trim ''  QA76.5   .C15  2019 '') = ''QA76.5 .C15 2019'' \<and>
   year_suffix ''QA76.5 .C15 2019'' \<and>
   clean_call_number_keep_space_before_year ''  QA76.5   .C15  2019 '' = ''QA76.5.C15 2019'' \<and>
   list_all is_space ''   '' \<and> clean_call_number_keep_space_before_year ''   '' = []"
proof -
  have t1: "collapse_runs (trim '' QA  76 .C15 19 '') = ''QA 76 .C15 19''"
    by (simp add: collapse_runs_def trim_def is_space_def code_def)
  have y1: "\<not> year_suffix ''QA 76 .C15 19''"
    by (simp add: year_suffix_def is_digit_def code_def)
  have t2: "collapse_runs (trim ''  QA76.5   .C15  2019 '') = ''QA76.5 .C15 2019''"
    by (simp add: collapse_runs_def trim_def is_space_def code_def)
  have y2: "year_suffix ''QA76.5 .C15 2019''"
    by (simp add: year_suffix_def is_digit_def code_def)
  have s3: "list_all is_space ''   ''" by (simp add: is_space_def code_def)
  have c1: "clean_call_number_keep_space_before_year '' QA  76 .C15 19 '' = ''QA76.C1519''"
    using clean_call_number_rule [of "'' QA  76 .C15 19 ''"] unfolding t1
    by (simp add: delete_spaces_except_year_def y1 remove_blanks_def)
  have c2: "clean_call_number_keep_space_before_year ''  QA76.5   .C15  2019 ''
      = ''QA76.5.C15 2019''"
    using clean_call_number_rule [of "''  QA76.5   .C15  2019 ''"] unfolding t2
    by (simp add: delete_spaces_except_year_def y2 remove_blanks_def)
  have c3: "clean_call_number_keep_space_before_year ''   '' = []"
    using clean_call_number_rule [of "''   ''"] s3 by blast
  from t1 y1 c1 t2 y2 c2 s3 c3 show ?thesis by (simp only: simp_thms)
qed

section \<open>Selecting the call number that ranks a record\<close>

text \<open>
  C9. The string selected for ranking is the first trimmed value that is not empty among
  the fields \<open>LC Call Number\<close>, \<open>Local Call Number\<close> and \<open>CNfromPA\<close>, in this order,
  and the empty string when all three are empty or absent. A field of lower priority is
  selected only when every field of higher priority is empty once trimmed.
\<close>

theorem best_call_number_priority:
  "best_call_number_for_sort row =
     (let lc = strip (getf row ''LC Call Number'');
          loc = strip (getf row ''Local Call Number'');
          pa = strip (getf row ''CNfromPA'')
      in if lc \<noteq> [] then lc else if loc \<noteq> [] then loc else if pa \<noteq> [] then pa else [])"
  by (simp add: best_call_number_for_sort_def Let_def)

theorem best_call_number_priority_witness:
  "best_call_number_for_sort
     [(''Local Call Number'', Some '' QA1 ''), (''LC Call Number'', Some ''  ''),
      (''CNfromPA'', Some ''PS2'')]
     = ''QA1'' \<and>
   best_call_number_for_sort
     [(''Local Call Number'', Some ''QA1''), (''LC Call Number'', Some ''Z5''),
      (''CNfromPA'', Some ''PS2'')]
     = ''Z5'' \<and>
   best_call_number_for_sort
     [(''LC Call Number'', None), (''Local Call Number'', None), (''CNfromPA'', Some ''PS2'')]
     = ''PS2'' \<and>
   best_call_number_for_sort [(''Title'', Some ''t'')] = []"
  using
    best_call_number_priority
      [of "[(''Local Call Number'', Some '' QA1 ''), (''LC Call Number'', Some ''  ''),
            (''CNfromPA'', Some ''PS2'')]"]
    best_call_number_priority
      [of "[(''Local Call Number'', Some ''QA1''), (''LC Call Number'', Some ''Z5''),
            (''CNfromPA'', Some ''PS2'')]"]
    best_call_number_priority
      [of "[(''LC Call Number'', None), (''Local Call Number'', None),
            (''CNfromPA'', Some ''PS2'')]"]
    best_call_number_priority [of "[(''Title'', Some ''t'')]"]
  by (simp add: getf_def or_empty_def strip_def is_space_def code_def)

section \<open>The availability string: semicolons and line feeds\<close>

lemma dropWhile_not_semi_Cons:
  "dropWhile not_semi s = c # t \<Longrightarrow> c = CHR '';'' \<and> semicolons s = Suc (semicolons t)"
  by (induction s) (auto simp: not_semi_def semicolons_def split: if_splits)

lemma dropWhile_not_semi_Nil:
  "dropWhile not_semi s = [] \<Longrightarrow> semicolons s = 0"
  by (induction s) (auto simp: not_semi_def semicolons_def split: if_splits)

lemma match_availability_Some_semicolons:
  "match_availability s = Some g \<Longrightarrow> 3 \<le> semicolons s"
  by (auto simp: match_availability_def split: list.splits if_splits
      dest!: dropWhile_not_semi_Cons)

lemma extract_fewer_than_three_semicolons:
  "semicolons (strip text) < 3 \<Longrightarrow>
   extract_from_physical_availability text = (strip text, [])"
proof -
  assume a: "semicolons (strip text) < 3"
  have "match_availability (strip text) = None"
  proof (cases "match_availability (strip text)")
    case (Some g)
    then show ?thesis using match_availability_Some_semicolons a by fastforce
  qed simp
  then show ?thesis
    by (simp add: extract_from_physical_availability_def strip_def)
qed

lemma takeWhile_not_semi_append:
  "CHR '';'' \<notin> set a \<Longrightarrow> takeWhile not_semi (a @ CHR '';'' # r) = a"
  by (induction a) (auto simp: not_semi_def)

lemma dropWhile_not_semi_append:
  "CHR '';'' \<notin> set a \<Longrightarrow> dropWhile not_semi (a @ CHR '';'' # r) = CHR '';'' # r"
  by (induction a) (auto simp: not_semi_def)

lemma match_availability_three:
  assumes "CHR '';'' \<notin> set a" "CHR '';'' \<notin> set b" "CHR '';'' \<notin> set c"
  shows "match_availability (a @ CHR '';'' # b @ CHR '';'' # c @ CHR '';'' # d)
           = (if dot_star_dollar d then Some (a, c) else None)"
  using assms
  by (simp add: match_availability_def takeWhile_not_semi_append dropWhile_not_semi_append)

lemma dot_star_no_newline:
  "CHR 0x0A \<notin> set d \<Longrightarrow> dot_star_dollar d"
proof -
  assume "CHR 0x0A \<notin> set d"
  then have "dropWhile not_newline d = []"
    by (induction d) (auto simp: not_newline_def)
  then show ?thesis by (simp add: dot_star_dollar_def at_dollar_def)
qed

lemma extract_three_semicolons:
  assumes "strip text = a @ CHR '';'' # b @ CHR '';'' # c @ CHR '';'' # d"
    and "CHR '';'' \<notin> set a" "CHR '';'' \<notin> set b" "CHR '';'' \<notin> set c"
    and "CHR 0x0A \<notin> set d"
  shows "extract_from_physical_availability text = (strip a, strip c)"
proof -
  have "text \<noteq> []" using assms(1) by (auto simp: strip_def)
  moreover have "match_availability (strip text) = Some (a, c)"
    using assms by (simp add: match_availability_three dot_star_no_newline)
  ultimately show ?thesis
    by (simp add: extract_from_physical_availability_def)
qed

lemma strip_last_not_space: "strip s \<noteq> [] \<Longrightarrow> \<not> is_space (last (strip s))"
proof -
  assume n: "strip s \<noteq> []"
  define u where "u = rev (dropWhile is_space s)"
  have d: "dropWhile is_space u \<noteq> []" using n by (simp add: strip_def u_def)
  then have "\<not> is_space (hd (dropWhile is_space u))" by (rule hd_dropWhile)
  moreover have "last (strip s) = hd (dropWhile is_space u)"
    using d by (simp add: strip_def u_def last_rev)
  ultimately show ?thesis by simp
qed

lemma extract_three_semicolons_newline:
  assumes s: "strip text = a @ CHR '';'' # b @ CHR '';'' # c @ CHR '';'' # d"
    and "CHR '';'' \<notin> set a" "CHR '';'' \<notin> set b" "CHR '';'' \<notin> set c"
    and nl: "CHR 0x0A \<in> set d"
  shows "extract_from_physical_availability text = (strip text, [])"
proof -
  have ne: "text \<noteq> []" using s by (auto simp: strip_def)
  have "\<not> dot_star_dollar d"
  proof
    assume "dot_star_dollar d"
    then have "dropWhile not_newline d = [] \<or> dropWhile not_newline d = [CHR 0x0A]"
      by (simp add: dot_star_dollar_def at_dollar_def)
    moreover have "dropWhile not_newline d \<noteq> []"
      using nl by (auto simp: dropWhile_eq_Nil_conv not_newline_def)
    ultimately have e: "dropWhile not_newline d = [CHR 0x0A]" by blast
    have "d = takeWhile not_newline d @ [CHR 0x0A]"
      using takeWhile_dropWhile_id [of not_newline d] e by simp
    then have "last d = CHR 0x0A" "d \<noteq> []"
      by (metis last_snoc, metis snoc_eq_iff_butlast)
    then have "last (strip text) = CHR 0x0A" by (simp add: s)
    moreover have "\<not> is_space (last (strip text))"
      by (rule strip_last_not_space) (simp add: s)
    ultimately show False by (simp add: is_space_def code_def)
  qed
  then have "match_availability (strip text) = None"
    using assms by (simp add: match_availability_three)
  then show ?thesis using ne
    by (simp add: extract_from_physical_availability_def)
qed

text \<open>
  C6. On a text with three semicolons and a line feed after the third, the pattern fails
  (\<open>.\<close> does not match a line feed) and the function falls back to the whole text as
  location, with an empty call number: not the segment before the first semicolon and
  the segment between the second and the third.
\<close>

theorem extract_newline_after_third_semicolon:
  "extract_from_physical_availability
     (''Stacks;ignored;QA76 .C15;note'' @ [CHR 0x0A] @ ''more'')
     = (''Stacks;ignored;QA76 .C15;note'' @ [CHR 0x0A] @ ''more'', [])"
  by (simp add: extract_from_physical_availability_def strip_def is_space_def code_def
      match_availability_def not_semi_def dot_star_dollar_def not_newline_def at_dollar_def)

lemma extract_examples:
  "extract_from_physical_availability ''Stacks;ignored;QA76 .C15;ignored2''
     = (''Stacks'', ''QA76 .C15'')"
  "extract_from_physical_availability ''NoSemicolonsHere'' = (''NoSemicolonsHere'', [])"
  "extract_from_physical_availability [] = ([], [])"
  by (simp_all add: extract_from_physical_availability_def strip_def is_space_def code_def
      match_availability_def not_semi_def dot_star_dollar_def not_newline_def at_dollar_def)

section \<open>The order of sort keys\<close>

lemma code_eq_iff: "code x = code y \<longleftrightarrow> x = y"
  unfolding code_def using inj_of_char [where ?'a = nat] by (auto dest: injD)

lemma str_less_irrefl: "\<not> str_less a a"
  by (induction a) auto

lemma str_less_trans: "str_less a b \<Longrightarrow> str_less b c \<Longrightarrow> str_less a c"
proof (induction a b arbitrary: c rule: str_less.induct)
  case 1
  then show ?case by simp
next
  case (2 y ys)
  then show ?case by (cases c) auto
next
  case (3 x xs)
  then show ?case by simp
next
  case (4 x xs y ys)
  show ?case
  proof (cases c)
    case Nil
    with 4 show ?thesis by simp
  next
    case (Cons z zs)
    show ?thesis
    proof (cases "x = y")
      case True
      with 4 Cons show ?thesis by (auto split: if_splits)
    next
      case False
      with 4 Cons show ?thesis by (auto simp: code_eq_iff split: if_splits)
    qed
  qed
qed

lemma code_less_cases: "x \<noteq> y \<Longrightarrow> code x < code y \<or> code y < code x"
  using code_eq_iff [of x y] by linarith

lemma str_less_total: "str_less a b \<or> a = b \<or> str_less b a"
  by (induction a b rule: str_less.induct) (auto dest: code_less_cases)

lemma strict_total_str_less: "strict_total str_less"
  unfolding strict_total_def
  using str_less_irrefl str_less_trans str_less_total by blast

lemma strict_total_num_less: "strict_total num_less"
proof -
  have "\<not> num_less a a" for a by (cases a) auto
  moreover have "num_less a b \<Longrightarrow> num_less b c \<Longrightarrow> num_less a c" for a b c
    by (cases a; cases b; cases c) auto
  moreover have "num_less a b \<or> a = b \<or> num_less b a" for a b
    by (cases a; cases b) auto
  ultimately show ?thesis unfolding strict_total_def by blast
qed

lemma strict_total_lex_pair:
  assumes R: "strict_total R" and S: "strict_total S"
  shows "strict_total (lex_pair R S)"
proof -
  have Rt: "\<And>a b c. R a b \<Longrightarrow> R b c \<Longrightarrow> R a c" and Ri: "\<And>a. \<not> R a a"
    and Rl: "\<And>a b. R a b \<or> a = b \<or> R b a"
    using R unfolding strict_total_def by blast+
  have St: "\<And>a b c. S a b \<Longrightarrow> S b c \<Longrightarrow> S a c" and Si: "\<And>a. \<not> S a a"
    and Sl: "\<And>a b. S a b \<or> a = b \<or> S b a"
    using S unfolding strict_total_def by blast+
  have ir: "\<not> lex_pair R S p p" for p
    using Si by (simp add: lex_pair_def)
  have tr: "lex_pair R S p r" if pq: "lex_pair R S p q" and qr: "lex_pair R S q r" for p q r
  proof (cases "fst p = fst q")
    case True
    show ?thesis
    proof (cases "fst q = fst r")
      case eq: True
      have "S (snd p) (snd r)"
        using pq qr True eq St [of "snd p" "snd q" "snd r"] by (simp add: lex_pair_def)
      then show ?thesis using True eq by (simp add: lex_pair_def)
    next
      case False
      then show ?thesis using pq qr True by (simp add: lex_pair_def)
    qed
  next
    case False
    then have Rpq: "R (fst p) (fst q)" using pq by (simp add: lex_pair_def)
    show ?thesis
    proof (cases "fst q = fst r")
      case True
      then show ?thesis using False Rpq by (simp add: lex_pair_def)
    next
      case ne: False
      then have Rqr: "R (fst q) (fst r)" using qr by (simp add: lex_pair_def)
      have Rpr: "R (fst p) (fst r)" using Rpq Rqr by (rule Rt)
      then have "fst p \<noteq> fst r" using Ri by auto
      then show ?thesis using Rpr by (simp add: lex_pair_def)
    qed
  qed
  have to: "lex_pair R S p q \<or> p = q \<or> lex_pair R S q p" for p q
  proof (cases "fst p = fst q")
    case True
    have "S (snd p) (snd q) \<or> snd p = snd q \<or> S (snd q) (snd p)" by (rule Sl)
    then show ?thesis using True by (auto simp: lex_pair_def prod_eq_iff)
  next
    case False
    have "R (fst p) (fst q) \<or> fst p = fst q \<or> R (fst q) (fst p)" by (rule Rl)
    then show ?thesis using False by (auto simp: lex_pair_def)
  qed
  show ?thesis
    unfolding strict_total_def
  proof (intro conjI allI impI)
    show "\<not> lex_pair R S a a" for a by (rule ir)
    show "lex_pair R S a c" if "lex_pair R S a b" "lex_pair R S b c" for a b c
      using that by (rule tr)
    show "lex_pair R S a b \<or> a = b \<or> lex_pair R S b a" for a b by (rule to)
  qed
qed

lemma num_less_irrefl [simp]: "\<not> num_less a a"
  by (cases a) auto

lemma num_less_if: "(if a \<noteq> b then num_less a b else False) = num_less a b"
  by simp

lemma key_less_lex:
  "key_less p q =
     lex_pair str_less (lex_pair num_less (lex_pair str_less (lex_pair num_less
       (lex_pair str_less (lex_pair num_less (lex_pair str_less (lex_pair num_less num_less)))))))
     p q"
  by (cases "(p, q)" rule: key_less.cases)
    (simp add: lex_pair_def num_less_if cong: if_cong split del: if_split)

lemma strict_total_key_less: "strict_total key_less"
proof -
  have e: "key_less =
     lex_pair str_less (lex_pair num_less (lex_pair str_less (lex_pair num_less
       (lex_pair str_less (lex_pair num_less (lex_pair str_less (lex_pair num_less num_less)))))))"
    by (intro ext) (rule key_less_lex)
  show ?thesis
    unfolding e
    by (intro strict_total_lex_pair strict_total_str_less strict_total_num_less)
qed

lemma key_less_irrefl: "\<not> key_less a a"
  using strict_total_key_less unfolding strict_total_def by blast

lemma key_less_trans: "key_less a b \<Longrightarrow> key_less b c \<Longrightarrow> key_less a c"
  using strict_total_key_less unfolding strict_total_def by blast

lemma key_less_total: "key_less a b \<or> a = b \<or> key_less b a"
  using strict_total_key_less unfolding strict_total_def by blast

lemma key_less_asym: "key_less a b \<Longrightarrow> \<not> key_less b a"
  using key_less_irrefl key_less_trans by blast

lemma set_insert_sorted: "set (insert_sorted key x ys) = insert x (set ys)"
  by (induction ys) auto

lemma ordered_insert_sorted:
  "ordered_by key ys \<Longrightarrow> ordered_by key (insert_sorted key x ys)"
proof (induction ys)
  case Nil
  then show ?case by (simp add: ordered_by_def)
next
  case (Cons y ys)
  show ?case
  proof (cases "key_less (key x) (key y)")
    case True
    have "\<not> key_less (key z) (key x)" if "z \<in> set (y # ys)" for z
    proof
      assume zx: "key_less (key z) (key x)"
      then have "key_less (key z) (key y)" using True key_less_trans by blast
      moreover have "z \<noteq> y \<Longrightarrow> \<not> key_less (key z) (key y)"
        using Cons.prems that by (auto simp: ordered_by_def)
      ultimately show False using True zx key_less_asym by blast
    qed
    with True Cons.prems show ?thesis by (simp add: ordered_by_def)
  next
    case False
    have "ordered_by key (insert_sorted key x ys)"
      using Cons by (simp add: ordered_by_def)
    with False Cons.prems show ?thesis
      by (auto simp: ordered_by_def set_insert_sorted)
  qed
qed

lemma ordered_foldl_insert:
  "ordered_by key acc \<Longrightarrow> ordered_by key (foldl (\<lambda>acc x. insert_sorted key x acc) acc xs)"
  by (induction xs arbitrary: acc) (auto simp: ordered_insert_sorted)

lemma ordered_py_sorted: "ordered_by key (py_sorted key xs)"
  unfolding py_sorted_def by (rule ordered_foldl_insert) (simp add: ordered_by_def)

lemma insert_sorted_last:
  "(\<And>y. y \<in> set ys \<Longrightarrow> \<not> key_less (key x) (key y)) \<Longrightarrow> insert_sorted key x ys = ys @ [x]"
  by (induction ys) auto

lemma foldl_insert_ordered:
  "ordered_by key (acc @ xs) \<Longrightarrow> foldl (\<lambda>acc x. insert_sorted key x acc) acc xs = acc @ xs"
proof (induction xs arbitrary: acc)
  case Nil
  then show ?case by simp
next
  case (Cons x xs)
  have "insert_sorted key x acc = acc @ [x]"
    using Cons.prems by (intro insert_sorted_last) (auto simp: ordered_by_def sorted_wrt_append)
  moreover have "ordered_by key ((acc @ [x]) @ xs)" using Cons.prems by simp
  ultimately show ?case using Cons.IH [of "acc @ [x]"] by simp
qed

lemma py_sorted_ordered: "ordered_by key xs \<Longrightarrow> py_sorted key xs = xs"
  unfolding py_sorted_def using foldl_insert_ordered [of key "[]" xs] by simp

text \<open>
  C1. The comparison of sort keys, component by component, is a strict total order: of
  \<open>a < b\<close>, \<open>a = b\<close> and \<open>b < a\<close> exactly one holds, and the order is transitive.
  Sorting a sorted batch again leaves it as it is.
\<close>

theorem key_less_strict_total_order:
  "((key_less a b \<and> a \<noteq> b \<and> \<not> key_less b a) \<or>
    (\<not> key_less a b \<and> a = b \<and> \<not> key_less b a) \<or>
    (\<not> key_less a b \<and> a \<noteq> b \<and> key_less b a)) \<and>
   (key_less a b \<longrightarrow> key_less b c \<longrightarrow> key_less a c) \<and>
   py_sorted key (py_sorted key xs) = py_sorted key xs"
proof -
  have "(key_less a b \<and> a \<noteq> b \<and> \<not> key_less b a) \<or>
    (\<not> key_less a b \<and> a = b \<and> \<not> key_less b a) \<or>
    (\<not> key_less a b \<and> a \<noteq> b \<and> key_less b a)"
    using key_less_total [of a b] key_less_irrefl key_less_asym by blast
  moreover have "key_less a b \<longrightarrow> key_less b c \<longrightarrow> key_less a c"
    using key_less_trans by blast
  moreover have "py_sorted key (py_sorted key xs) = py_sorted key xs"
    using ordered_py_sorted by (rule py_sorted_ordered)
  ultimately show ?thesis by blast
qed

theorem key_less_strict_total_order_witness:
  "key_less (''PS'', Fin 3561, ''A'', Fin 1, [], PInf, [], PInf, Fin 2001)
     (''QA'', Fin 76, ''C'', Fin 153, [], PInf, [], PInf, Fin 2019) \<and>
   key_less (''QA'', Fin 76, ''C'', Fin 153, [], PInf, [], PInf, Fin 2019) all_missing \<and>
   key_less (''PS'', Fin 3561, ''A'', Fin 1, [], PInf, [], PInf, Fin 2001) all_missing \<and>
   py_sorted id (py_sorted id
     [all_missing, (''QA'', Fin 76, ''C'', Fin 153, [], PInf, [], PInf, Fin 2019),
      (''PS'', Fin 3561, ''A'', Fin 1, [], PInf, [], PInf, Fin 2001)]) =
     [(''PS'', Fin 3561, ''A'', Fin 1, [], PInf, [], PInf, Fin 2001),
      (''QA'', Fin 76, ''C'', Fin 153, [], PInf, [], PInf, Fin 2019), all_missing]"
  using key_less_strict_total_order
    [of "(''PS'', Fin 3561, ''A'', Fin 1, [], PInf, [], PInf, Fin 2001)"
        "(''QA'', Fin 76, ''C'', Fin 153, [], PInf, [], PInf, Fin 2019)"
        all_missing id
        "[all_missing, (''QA'', Fin 76, ''C'', Fin 153, [], PInf, [], PInf, Fin 2019),
          (''PS'', Fin 3561, ''A'', Fin 1, [], PInf, [], PInf, Fin 2001)]"]
  by (simp add: all_missing_def py_sorted_def code_def)

section \<open>When the sort key is built\<close>

lemma is_digit_not_dot: "is_digit c \<Longrightarrow> c \<noteq> CHR ''.''"
  by (auto simp: is_digit_def code_def)

lemma takeWhile_digits_all: "list_all is_digit (takeWhile is_digit t)"
  by (induction t) auto

lemma is_decimal_digits: "ip \<noteq> [] \<Longrightarrow> list_all is_digit ip \<Longrightarrow> is_decimal ip"
proof -
  assume a: "ip \<noteq> []" "list_all is_digit ip"
  have tw: "takeWhile is_digit ip = ip"
    using a(2) by (simp add: list_all_iff)
  have dw: "dropWhile is_digit ip = []"
    using a(2) by (simp add: list_all_iff)
  show ?thesis
    unfolding is_decimal_def Let_def tw dw using a(1) by simp
qed

lemma is_decimal_fraction:
  assumes "ip \<noteq> []" "list_all is_digit ip" "fp \<noteq> []" "list_all is_digit fp"
  shows "is_decimal (ip @ CHR ''.'' # fp)"
proof -
  have nd: "\<not> is_digit CHR ''.''" by (simp add: is_digit_def code_def)
  have tw: "takeWhile is_digit (ip @ CHR ''.'' # fp) = ip"
    using assms(2) nd by (simp add: list_all_iff)
  have dw: "dropWhile is_digit (ip @ CHR ''.'' # fp) = CHR ''.'' # fp"
    using assms(2) nd by (simp add: list_all_iff)
  show ?thesis
    unfolding is_decimal_def Let_def tw dw using assms by simp
qed

lemma number_group_decimal: "number_group t \<noteq> [] \<Longrightarrow> is_decimal (number_group t)"
proof -
  assume n: "number_group t \<noteq> []"
  define ip where "ip = takeWhile is_digit t"
  define r where "r = dropWhile is_digit t"
  have ip: "ip \<noteq> []" "list_all is_digit ip"
    using n by (auto simp: number_group_def ip_def Let_def takeWhile_digits_all)
  show ?thesis
  proof (cases "\<exists>f u. r = CHR ''.'' # f # u \<and> is_digit f")
    case True
    then obtain f u where r: "r = CHR ''.'' # f # u" and f: "is_digit f" by blast
    have ng: "number_group t = ip @ CHR ''.'' # takeWhile is_digit (f # u)"
      using ip r f by (simp add: number_group_def ip_def [symmetric] r_def [symmetric])
    have ne: "takeWhile is_digit (f # u) \<noteq> []" using f by simp
    have "is_decimal (ip @ CHR ''.'' # takeWhile is_digit (f # u))"
      using ip ne takeWhile_digits_all by (rule is_decimal_fraction)
    then show ?thesis by (simp only: ng)
  next
    case False
    then have "number_group t = ip"
      using ip by (auto simp: number_group_def ip_def [symmetric] r_def [symmetric]
          split: list.splits)
    then show ?thesis using ip by (simp add: is_decimal_digits)
  qed
qed

lemma parse_class_and_number_total:
  "\<exists>letters num idx. parse_class_and_number rnd s = Inr (letters, num, idx)"
  by (auto simp: parse_class_and_number_def Let_def py_float_def number_group_decimal)

lemma cutter_match_digits:
  "cutter_match s = Some ((l, ds), r) \<Longrightarrow> ds \<noteq> [] \<and> list_all is_digit ds"
  by (auto simp: cutter_match_def Let_def takeWhile_digits_all split: list.splits if_splits)

lemma cutter_finditer_digits:
  "(l, ds) \<in> set (cutter_finditer s) \<Longrightarrow> ds \<noteq> [] \<and> list_all is_digit ds"
proof (induction s rule: cutter_finditer.induct)
  case 1
  then show ?case by simp
next
  case (2 c cs)
  show ?case
  proof (cases "cutter_match (c # cs)")
    case None
    with 2 show ?thesis by simp
  next
    case (Some m)
    obtain l' ds' r where m: "m = ((l', ds'), r)" by (metis prod.collapse)
    show ?thesis
    proof (cases "(l, ds) = (l', ds')")
      case True
      then have "cutter_match (c # cs) = Some ((l, ds), r)" using Some m by simp
      then show ?thesis by (rule cutter_match_digits)
    next
      case False
      then have "(l, ds) \<in> set (cutter_finditer r)"
        using "2.prems" Some m by auto
      then show ?thesis using "2.IH" Some m by auto
    qed
  qed
qed

lemma upper_not_space: "is_upper c \<Longrightarrow> \<not> is_space c"
  by (auto simp: is_upper_def is_space_def)

lemma upper_not_digit: "is_upper c \<Longrightarrow> \<not> is_digit c"
  by (auto simp: is_upper_def is_digit_def)

lemma upper_not_dot: "is_upper c \<Longrightarrow> c \<noteq> CHR ''.''"
  by (auto simp: is_upper_def code_def)

lemma cutter_texts_skip:
  "(\<And>c. c \<in> set pre \<Longrightarrow> \<not> is_upper c) \<Longrightarrow> cutter_texts (pre @ t) = cutter_texts t"
  by (induction pre) auto

lemma cutter_texts_skip_spaces:
  "cutter_texts t = cutter_texts (dropWhile is_space t)"
proof -
  have "cutter_texts (takeWhile is_space t @ dropWhile is_space t)
      = cutter_texts (dropWhile is_space t)"
    by (rule cutter_texts_skip) (auto dest: set_takeWhileD upper_not_space)
  then show ?thesis by simp
qed

lemma cutter_texts_skip_digits:
  "cutter_texts t = cutter_texts (dropWhile is_digit t)"
proof -
  have "cutter_texts (takeWhile is_digit t @ dropWhile is_digit t)
      = cutter_texts (dropWhile is_digit t)"
    by (rule cutter_texts_skip) (auto dest: set_takeWhileD upper_not_digit)
  then show ?thesis by simp
qed

lemma starts_with_digit_takeWhile: "starts_with_digit t \<longleftrightarrow> takeWhile is_digit t \<noteq> []"
  by (cases t) (auto simp: starts_with_digit_def)

lemma cutter_match_Some_texts:
  assumes "cutter_match s = Some ((l, ds), r)"
  shows "cutter_texts s = (l, ds) # cutter_texts r"
proof -
  define s0 where "s0 = (case s of [] \<Rightarrow> [] | c # cs \<Rightarrow> if c = CHR ''.'' then cs else s)"
  from assms obtain s2 where d: "dropWhile is_space s0 = l # s2" and l: "is_upper l"
    and ds: "ds = takeWhile is_digit (dropWhile is_space s2)" "ds \<noteq> []"
    and r: "r = dropWhile is_digit (dropWhile is_space s2)"
    by (auto simp: cutter_match_def s0_def [symmetric] Let_def split: list.splits if_splits)
  have "cutter_texts s = cutter_texts s0"
  proof (cases s)
    case Nil
    then show ?thesis by (simp add: s0_def)
  next
    case (Cons c cs)
    show ?thesis
    proof (cases "c = CHR ''.''")
      case True
      then have "\<not> is_upper c" using upper_not_dot by blast
      with True Cons show ?thesis by (simp add: s0_def)
    next
      case False
      with Cons show ?thesis by (simp add: s0_def)
    qed
  qed
  also have "\<dots> = cutter_texts (l # s2)"
    using cutter_texts_skip_spaces [of s0] d by simp
  also have "\<dots> = (l, ds) # cutter_texts s2"
    using l ds by (simp add: starts_with_digit_takeWhile)
  also have "cutter_texts s2 = cutter_texts r"
    unfolding r
    using cutter_texts_skip_spaces [of s2]
      cutter_texts_skip_digits [of "dropWhile is_space s2"] by simp
  finally show ?thesis .
qed

lemma cutter_match_None_texts:
  assumes "cutter_match (c # cs) = None"
  shows "cutter_texts (c # cs) = cutter_texts cs"
proof (cases "is_upper c \<and> starts_with_digit (dropWhile is_space cs)")
  case True
  then have "c \<noteq> CHR ''.''" "\<not> is_space c" "takeWhile is_digit (dropWhile is_space cs) \<noteq> []"
    using upper_not_dot upper_not_space starts_with_digit_takeWhile by blast+
  with True have "cutter_match (c # cs) \<noteq> None"
    by (simp add: cutter_match_def Let_def)
  with assms show ?thesis by simp
next
  case False
  then show ?thesis by auto
qed

lemma cutter_finditer_texts: "cutter_finditer s = cutter_texts s"
proof (induction s rule: cutter_finditer.induct)
  case 1
  then show ?case by simp
next
  case (2 c cs)
  show ?case
  proof (cases "cutter_match (c # cs)")
    case None
    then have "cutter_finditer (c # cs) = cutter_finditer cs"
      by simp
    also have "\<dots> = cutter_texts cs" using None "2.IH" by simp
    also have "\<dots> = cutter_texts (c # cs)"
      using None by (simp only: cutter_match_None_texts)
    finally show ?thesis .
  next
    case (Some m)
    obtain l ds r where m: "m = ((l, ds), r)" by (metis prod.collapse)
    have "cutter_finditer (c # cs) = (l, ds) # cutter_finditer r"
      using Some m by simp
    also have "cutter_finditer r = cutter_texts r"
      using Some m "2.IH" by simp
    also have "(l, ds) # cutter_texts r = cutter_texts (c # cs)"
      using Some m cutter_match_Some_texts [of "c # cs" l ds r] by simp
    finally show ?thesis .
  qed
qed

lemma cutter_groups_texts: "cutter_groups s = cutter_pairs (cutter_texts s)"
  by (induction s) (simp_all add: cutter_pairs_def)

lemma cutter_finditer_groups: "cutter_pairs (cutter_finditer s) = cutter_groups s"
  by (simp only: cutter_finditer_texts cutter_groups_texts)

lemma cutters_of_eq:
  "(\<And>l ds. (l, ds) \<in> set ms \<Longrightarrow> ds \<noteq> [] \<and> list_all is_digit ds) \<Longrightarrow>
   cutters_of ms =
     (if list_ex (\<lambda>(l, ds). int_max_str_digits < length ds) ms then Inl ValueError
      else Inr (cutter_pairs ms))"
proof (induction ms)
  case Nil
  then show ?case by (simp add: cutter_pairs_def)
next
  case (Cons m ms)
  obtain l ds where m: "m = (l, ds)" by (cases m)
  have d: "ds \<noteq> [] \<and> list_all is_digit ds" using Cons.prems [of l ds] by (simp add: m)
  have ih: "cutters_of ms =
     (if list_ex (\<lambda>(l, ds). int_max_str_digits < length ds) ms then Inl ValueError
      else Inr (cutter_pairs ms))"
  proof (rule Cons.IH)
    fix l' ds' assume "(l', ds') \<in> set ms"
    then show "ds' \<noteq> [] \<and> list_all is_digit ds'"
      using Cons.prems [of l' ds'] by simp
  qed
  show ?case
  proof (cases "int_max_str_digits < length ds")
    case True
    with d have "py_int ds = Inl ValueError" by (simp add: py_int_def)
    with True show ?thesis by (simp add: m)
  next
    case False
    with d have "py_int ds = Inr (digits_value ds)" by (simp add: py_int_def)
    with False ih show ?thesis by (simp add: m cutter_pairs_def)
  qed
qed

lemma year_here_digits: "year_here t \<Longrightarrow> take 4 t \<noteq> [] \<and> list_all is_digit (take 4 t)"
  by (auto simp: year_here_def is_digit_def code_def split: list.splits)

lemma year_here_four: "year_here t \<Longrightarrow> length (take 4 t) = 4"
  by (auto simp: year_here_def split: list.splits)

lemma year_finditer_digits:
  "g \<in> set (year_finditer b s) \<Longrightarrow> g \<noteq> [] \<and> list_all is_digit g \<and> length g = 4"
proof (induction b s rule: year_finditer.induct)
  case (1 at_start)
  then show ?case by simp
next
  case (2 at_start c cs)
  then show ?case
    using year_here_digits [of "c # cs"] year_here_digits [of cs]
      year_here_four [of "c # cs"] year_here_four [of cs]
    by (auto split: if_splits)
qed

lemma last_match_eq: "last_match ys = (if ys = [] then None else Some (last ys))"
proof -
  have "foldl (\<lambda>last y. Some y) a ys = (if ys = [] then a else Some (last ys))" for a
    by (induction ys arbitrary: a) auto
  then show ?thesis by (simp add: last_match_def)
qed

text \<open>
  The parser of cutters and year raises exactly when a cutter group is too long for
  \<open>int\<close>: the conversion is applied to every match, before the cut to three. The four
  digits of a year are always converted.
\<close>

lemma parse_cutters_and_extras_eq:
  "parse_cutters_and_extras s =
     (if cutter_too_long s then Inl ValueError
      else Inr (cutter_groups s, year_of (year_finditer True s)))"
proof -
  have c: "cutters_of (cutter_finditer s) =
     (if cutter_too_long s then Inl ValueError else Inr (cutter_groups s))"
    using cutters_of_eq [of "cutter_finditer s", OF cutter_finditer_digits]
    by (simp only: cutter_too_long_def cutter_finditer_groups)
      (simp only: cutter_finditer_texts)
  show ?thesis
  proof (cases "cutter_too_long s")
    case True
    then show ?thesis by (simp add: parse_cutters_and_extras_def c)
  next
    case nl: False
    show ?thesis
    proof (cases "year_finditer True s = []")
      case True
      with nl show ?thesis
        by (simp add: parse_cutters_and_extras_def c last_match_eq year_of_def)
    next
      case False
      then have "last (year_finditer True s) \<in> set (year_finditer True s)" by simp
      then have "py_int (last (year_finditer True s))
          = Inr (digits_value (last (year_finditer True s)))"
        using year_finditer_digits [of "last (year_finditer True s)" True s]
        by (simp add: py_int_def int_max_str_digits_def)
      with False nl show ?thesis
        by (simp add: parse_cutters_and_extras_def c last_match_eq year_of_def)
    qed
  qed
qed

lemma take3_pad:
  "\<exists>p1 p2 p3. take 3 (cs @ replicate 3 x) = [p1, p2, p3]"
  by (cases cs; cases "tl cs"; cases "tl (tl cs)"; simp add: numeral_3_eq_3)

lemma normalize_Nil [simp]: "normalize [] = []"
  by (simp add: normalize_def strip_def upper_def)

lemma parse_class_end:
  "parse_class_and_number rnd s = Inr (letters, num, idx) \<Longrightarrow> idx = class_end s"
  by (auto simp: parse_class_and_number_def class_end_def Let_def min_def
      split: if_splits sum.splits)

lemma after_class_drop:
  "parse_class_and_number rnd (normalize raw) = Inr (letters, num, idx) \<Longrightarrow>
   after_class raw = drop idx (normalize raw)"
  using parse_class_end [of rnd "normalize raw" letters num idx]
  by (simp add: after_class_def)

lemma cutter_overflow_Nil [simp]: "\<not> cutter_overflow []"
  by (simp add: cutter_overflow_def after_class_def cutter_too_long_def)

text \<open>
  The key of a text: an error when the text after the classification segment has a
  cutter group too long for \<open>int\<close>, and otherwise the nine slots.
\<close>

lemma lc_sort_key_too_long:
  assumes "parse_class_and_number rnd (normalize raw) = Inr (letters, num, idx)"
    and "cutter_too_long (drop idx (normalize raw))"
  shows "lc_sort_key rnd raw = Inl ValueError"
proof -
  have "raw \<noteq> []"
  proof
    assume "raw = []"
    then have "normalize raw = []" by simp
    with assms(2) show False by (simp add: cutter_too_long_def)
  qed
  moreover have "parse_cutters_and_extras (drop idx (normalize raw)) = Inl ValueError"
    using assms(2) by (simp add: parse_cutters_and_extras_eq)
  ultimately show ?thesis using assms(1) by (simp add: lc_sort_key_def)
qed

lemma lc_sort_key_eq:
  assumes p: "parse_class_and_number rnd (normalize raw) = Inr (letters, num, idx)"
    and nl: "\<not> cutter_too_long (drop idx (normalize raw))"
  shows "\<exists>a x b y c z.
     take 3 (cutter_groups (drop idx (normalize raw)) @ replicate 3 ([], PInf))
       = [(a, x), (b, y), (c, z)] \<and>
     lc_sort_key rnd raw =
       Inr (if letters = [] then ''ZZZ'' else letters, num, a, x, b, y, c, z,
            year_of (year_finditer True (drop idx (normalize raw))))"
proof -
  obtain p1 p2 p3 where
    t: "take 3 (cutter_groups (drop idx (normalize raw)) @ replicate 3 ([], PInf))
          = [p1, p2, p3]"
    using take3_pad [of "cutter_groups (drop idx (normalize raw))" "([], PInf)"]
    by blast
  obtain a x b y c z where q: "p1 = (a, x)" "p2 = (b, y)" "p3 = (c, z)"
    by (metis prod.collapse)
  show ?thesis
  proof (cases "raw = []")
    case True
    have "parse_class_and_number rnd [] = Inr ([], PInf, 0)"
      by (simp add: parse_class_and_number_def)
    with p True have "letters = []" "num = PInf" "idx = 0" by simp_all
    with True p t q show ?thesis
      by (simp add: lc_sort_key_def all_missing_def year_of_def numeral_3_eq_3)
  next
    case False
    with p t q nl show ?thesis
      by (simp add: lc_sort_key_def parse_cutters_and_extras_eq)
  qed
qed

lemma lc_sort_key_raises: "cutter_overflow raw \<Longrightarrow> lc_sort_key rnd raw = Inl ValueError"
proof -
  assume o: "cutter_overflow raw"
  obtain letters num idx where
    p: "parse_class_and_number rnd (normalize raw) = Inr (letters, num, idx)"
    using parse_class_and_number_total by blast
  have "cutter_too_long (drop idx (normalize raw))"
    using o after_class_drop [OF p] by (simp add: cutter_overflow_def)
  with p show ?thesis by (rule lc_sort_key_too_long)
qed

lemma lc_sort_key_returns: "\<not> cutter_overflow raw \<Longrightarrow> \<exists>k. lc_sort_key rnd raw = Inr k"
proof -
  assume o: "\<not> cutter_overflow raw"
  obtain letters num idx where
    p: "parse_class_and_number rnd (normalize raw) = Inr (letters, num, idx)"
    using parse_class_and_number_total by blast
  have "\<not> cutter_too_long (drop idx (normalize raw))"
    using o after_class_drop [OF p] by (simp add: cutter_overflow_def)
  from lc_sort_key_eq [OF p this] show ?thesis by blast
qed

text \<open>The definitions that evaluate the parser on a given text.\<close>

lemmas eval_defs =
  lc_sort_key_def normalize_def strip_def upper_def upper_char_def
  parse_class_and_number_def number_group_def py_float_def is_decimal_def decimal_value_def
  parse_cutters_and_extras_def cutter_match_def py_int_def int_max_str_digits_def
  digits_value_def digit_val_def
  last_match_def year_here_def is_space_def is_digit_def is_upper_def code_def Let_def
  all_missing_def

subsection \<open>A cutter too long for the conversion\<close>

text \<open>
  The text \<open>QA76 .C\<close> followed by a run of digits, and the same without the space. The
  normal form of both is \<open>QA76.C\<close> followed by the digits, the classification segment
  is \<open>QA76\<close>, and the one cutter group has the digits of the run. With more than 4300
  digits the key is not built.
\<close>

lemma digits_no_space: "list_all is_digit ds \<Longrightarrow> dropWhile is_space ds = ds"
  by (cases ds) (auto simp: digit_not_space)

lemma collapse_ws_digits: "list_all is_digit ds \<Longrightarrow> collapse_ws ds = ds"
  by (induction ds) (auto simp: digit_not_space)

lemma upper_char_digit: "is_digit c \<Longrightarrow> upper_char c = [c]"
  by (auto simp: upper_char_def is_digit_def Let_def)

lemma upper_digits: "list_all is_digit ds \<Longrightarrow> upper ds = ds"
  by (induction ds) (auto simp: upper_def upper_char_digit)

lemma upper_Cons: "upper (c # cs) = upper_char c @ upper cs"
  by (simp add: upper_def)

lemma replace2_absent: "a \<notin> set s \<Longrightarrow> replace2 a b s = s"
  by (induction a b s rule: replace2.induct) auto

lemma replace2_other: "x \<noteq> a \<Longrightarrow> replace2 a b (x # zs) = x # replace2 a b zs"
  by (cases zs) auto

lemma replace2_digits: "\<not> is_digit a \<Longrightarrow> list_all is_digit ds \<Longrightarrow> replace2 a b ds = ds"
  by (rule replace2_absent) (auto simp: list_all_iff)

lemma takeWhile_digits_id: "list_all is_digit ds \<Longrightarrow> takeWhile is_digit ds = ds"
  by (simp add: list_all_iff)

lemma cutter_texts_digits: "list_all is_digit ds \<Longrightarrow> cutter_texts ds = []"
  by (induction ds) (auto simp: upper_not_digit)

lemma digits_last_not_space: "list_all is_digit ds \<Longrightarrow> ds \<noteq> [] \<Longrightarrow> \<not> is_space (last ds)"
  using last_in_set [of ds] by (auto simp: list_all_iff digit_not_space)

lemma strip_before_digits:
  assumes "list_all is_digit ds" "ds \<noteq> []" "\<not> is_space c"
  shows "strip (c # pre @ ds) = c # pre @ ds"
  by (rule strip_id) (simp add: assms digits_last_not_space)

lemma normalize_long:
  assumes d: "list_all is_digit ds" and ne: "ds \<noteq> []"
  shows "normalize (''QA76 .C'' @ ds) = ''QA76.C'' @ ds"
    and "normalize (''QA76.C'' @ ds) = ''QA76.C'' @ ds"
proof -
  have q: "\<not> is_space CHR ''Q''" by (simp add: is_space_def code_def)
  have s1: "strip (''QA76 .C'' @ ds) = ''QA76 .C'' @ ds"
    using strip_before_digits [OF d ne q, of "''A76 .C''"] by simp
  have s2: "strip (''QA76.C'' @ ds) = ''QA76.C'' @ ds"
    using strip_before_digits [OF d ne q, of "''A76.C''"] by simp
  have u1: "upper (''QA76 .C'' @ ds) = ''QA76 .C'' @ ds"
    by (simp add: upper_Cons upper_digits [OF d] upper_char_def code_def)
  have u2: "upper (''QA76.C'' @ ds) = ''QA76.C'' @ ds"
    by (simp add: upper_Cons upper_digits [OF d] upper_char_def code_def)
  have c1: "collapse_ws (''QA76 .C'' @ ds) = ''QA76 .C'' @ ds"
    by (simp add: collapse_ws_digits [OF d] is_space_def code_def)
  have c2: "collapse_ws (''QA76.C'' @ ds) = ''QA76.C'' @ ds"
    by (simp add: collapse_ws_digits [OF d] is_space_def code_def)
  have r1: "replace2 CHR ''.'' CHR ''.'' (''QA76 .C'' @ ds) = ''QA76 .C'' @ ds"
    by (simp add: replace2_other replace2_digits [OF _ d] is_digit_def code_def)
  have r2: "replace2 CHR '' '' CHR ''.'' (''QA76 .C'' @ ds) = ''QA76.C'' @ ds"
    by (simp add: replace2_other replace2_digits [OF _ d] is_digit_def code_def)
  have r3: "replace2 CHR ''.'' CHR ''.'' (''QA76.C'' @ ds) = ''QA76.C'' @ ds"
    by (simp add: replace2_other replace2_digits [OF _ d] is_digit_def code_def)
  have r4: "replace2 CHR '' '' CHR ''.'' (''QA76.C'' @ ds) = ''QA76.C'' @ ds"
    by (simp add: replace2_other replace2_digits [OF _ d] is_digit_def code_def)
  show "normalize (''QA76 .C'' @ ds) = ''QA76.C'' @ ds"
    unfolding normalize_def s1 u1 c1 r1 r2 s2 ..
  show "normalize (''QA76.C'' @ ds) = ''QA76.C'' @ ds"
    unfolding normalize_def s2 u2 c2 r3 r4 s2 ..
qed

lemma overflow_normal:
  assumes nf: "normalize raw = ''QA76.C'' @ ds"
    and d: "list_all is_digit ds" and long: "int_max_str_digits < length ds"
  shows "cutter_overflow raw"
proof -
  have ne: "ds \<noteq> []" using long by auto
  have sd: "starts_with_digit ds"
    using ne d by (cases ds) (simp_all add: starts_with_digit_def)
  have ce: "class_end (''QA76.C'' @ ds) = 4"
    by (simp add: class_end_def is_space_def is_upper_def code_def number_group_def
        is_digit_def Let_def)
  have ac: "after_class raw = ''.C'' @ ds"
    unfolding after_class_def nf ce by simp
  have uC: "is_upper CHR ''C''" and nd: "\<not> is_upper CHR ''.''"
    by (simp_all add: is_upper_def code_def)
  have "cutter_texts (CHR ''C'' # ds) = [(CHR ''C'', ds)]"
    by (simp only: cutter_texts.simps digits_no_space [OF d] takeWhile_digits_id [OF d]
        cutter_texts_digits [OF d] sd uC simp_thms if_True)
  then have ct: "cutter_texts (''.C'' @ ds) = [(CHR ''C'', ds)]"
    using nd by simp
  show ?thesis
    unfolding cutter_overflow_def ac cutter_too_long_def ct using long by simp
qed

lemma ones_digits: "list_all is_digit (replicate n (CHR ''1''))"
  by (simp add: list_all_iff is_digit_def code_def)

lemma long_cutter_raises:
  "int_max_str_digits < n \<Longrightarrow>
   lc_sort_key rnd (''QA76 .C'' @ replicate n (CHR ''1'')) = Inl ValueError"
proof -
  assume n: "int_max_str_digits < n"
  then have "0 < n" by simp
  then have ne: "replicate n (CHR ''1'') \<noteq> []" by simp
  have "normalize (''QA76 .C'' @ replicate n (CHR ''1'')) = ''QA76.C'' @ replicate n (CHR ''1'')"
    using ones_digits ne by (rule normalize_long(1))
  then have "cutter_overflow (''QA76 .C'' @ replicate n (CHR ''1''))"
    using ones_digits by (rule overflow_normal) (simp add: n)
  then show ?thesis by (rule lc_sort_key_raises)
qed

section \<open>The cutter slots\<close>

text \<open>
  C8, as the code has it. A sort key has exactly three cutter slots. They hold the first
  three cutter groups of the text after the classification segment, in their order of
  appearance; further groups are dropped, and the slots left are padded with the
  missing pair, an empty letter and infinity. A cutter group is an optional period,
  optional whitespace, one capital letter, optional whitespace again, and one or more
  digits. The key is produced unless one of the groups, kept or dropped, has more than
  4300 digits, which \<open>int\<close> refuses.
\<close>

theorem cutter_slots_first_three:
  "\<exists>letters num idx.
     parse_class_and_number rnd (normalize raw) = Inr (letters, num, idx) \<and>
     (cutter_too_long (drop idx (normalize raw)) \<longrightarrow> lc_sort_key rnd raw = Inl ValueError) \<and>
     (\<not> cutter_too_long (drop idx (normalize raw)) \<longrightarrow>
        (\<exists>k. lc_sort_key rnd raw = Inr k \<and>
           length (cutter_slots k) = 3 \<and>
           cutter_slots k
             = take 3 (cutter_groups (drop idx (normalize raw)) @ replicate 3 ([], PInf)) \<and>
           (\<forall>i<3. cutter_slots k ! i =
              (if i < length (cutter_groups (drop idx (normalize raw)))
               then cutter_groups (drop idx (normalize raw)) ! i else ([], PInf)))))"
proof -
  obtain letters num idx where
    p: "parse_class_and_number rnd (normalize raw) = Inr (letters, num, idx)"
    using parse_class_and_number_total by blast
  let ?gs = "cutter_groups (drop idx (normalize raw))"
  have r: "cutter_too_long (drop idx (normalize raw)) \<longrightarrow> lc_sort_key rnd raw = Inl ValueError"
    using lc_sort_key_too_long [OF p] by blast
  have s: "\<exists>k. lc_sort_key rnd raw = Inr k \<and>
           length (cutter_slots k) = 3 \<and>
           cutter_slots k = take 3 (?gs @ replicate 3 ([], PInf)) \<and>
           (\<forall>i<3. cutter_slots k ! i = (if i < length ?gs then ?gs ! i else ([], PInf)))"
    if nl: "\<not> cutter_too_long (drop idx (normalize raw))"
  proof -
    obtain a x b y c z where
      t: "take 3 (?gs @ replicate 3 ([], PInf)) = [(a, x), (b, y), (c, z)]" and
      k: "lc_sort_key rnd raw =
         Inr (if letters = [] then ''ZZZ'' else letters, num, a, x, b, y, c, z,
              year_of (year_finditer True (drop idx (normalize raw))))"
      using lc_sort_key_eq [OF p nl] by blast
    let ?k = "(if letters = [] then ''ZZZ'' else letters, num, a, x, b, y, c, z,
              year_of (year_finditer True (drop idx (normalize raw))))"
    have s: "cutter_slots ?k = take 3 (?gs @ replicate 3 ([], PInf))"
      using t by (simp add: cutter_slots_def)
    have n: "(take 3 (?gs @ replicate 3 ([], PInf))) ! i
        = (if i < length ?gs then ?gs ! i else ([], PInf))" if "i < 3" for i
      using that by (simp add: nth_append)
    have "length (cutter_slots ?k) = 3" by (simp add: cutter_slots_def)
    with k s n show ?thesis by (metis (no_types, lifting))
  qed
  from p r s show ?thesis by blast
qed

theorem cutter_slots_first_three_witness:
  "lc_sort_key Fin ''QA76.5 .C15 D2.E3 F4''
     = Inr (''QA'', Fin (153 / 2), ''C'', Fin 15, ''D'', Fin 2, ''E'', Fin 3, PInf) \<and>
   \<not> cutter_too_long (drop 6 (normalize ''QA76.5 .C15 D2.E3 F4'')) \<and>
   cutter_groups (drop 6 (normalize ''QA76.5 .C15 D2.E3 F4''))
     = [(''C'', Fin 15), (''D'', Fin 2), (''E'', Fin 3), (''F'', Fin 4)] \<and>
   cutter_slots (''QA'', Fin (153 / 2), ''C'', Fin 15, ''D'', Fin 2, ''E'', Fin 3, PInf)
     = take 3 ([(''C'', Fin 15), (''D'', Fin 2), (''E'', Fin 3), (''F'', Fin 4)]
               @ replicate 3 ([], PInf)) \<and>
   lc_sort_key Fin ''QA76 .C15'' = Inr (''QA'', Fin 76, ''C'', Fin 15, [], PInf, [], PInf, PInf) \<and>
   lc_sort_key Fin (''QA76 .C'' @ replicate 4301 (CHR ''1'')) = Inl ValueError"
proof -
  have a: "lc_sort_key Fin ''QA76.5 .C15 D2.E3 F4''
     = Inr (''QA'', Fin (153 / 2), ''C'', Fin 15, ''D'', Fin 2, ''E'', Fin 3, PInf)"
    by (simp add: eval_defs)
  have b: "lc_sort_key Fin ''QA76 .C15''
     = Inr (''QA'', Fin 76, ''C'', Fin 15, [], PInf, [], PInf, PInf)"
    by (simp add: eval_defs numeral_2_eq_2 numeral_3_eq_3)
  have n: "normalize ''QA76.5 .C15 D2.E3 F4'' = ''QA76.5.C15 D2.E3 F4''"
    by (simp add: eval_defs)
  have p: "parse_class_and_number Fin ''QA76.5.C15 D2.E3 F4'' = Inr (''QA'', Fin (153 / 2), 6)"
    by (simp add: eval_defs)
  have t: "\<not> cutter_too_long (drop 6 ''QA76.5.C15 D2.E3 F4'')"
    by (simp add: cutter_too_long_def starts_with_digit_def eval_defs)
  have g: "cutter_groups (drop 6 ''QA76.5.C15 D2.E3 F4'')
      = [(''C'', Fin 15), (''D'', Fin 2), (''E'', Fin 3), (''F'', Fin 4)]"
    by (simp add: eval_defs starts_with_digit_def)
  obtain letters num idx where
    p': "parse_class_and_number Fin ''QA76.5.C15 D2.E3 F4'' = Inr (letters, num, idx)" and
    i: "\<not> cutter_too_long (drop idx ''QA76.5.C15 D2.E3 F4'') \<longrightarrow>
        (\<exists>k. lc_sort_key Fin ''QA76.5 .C15 D2.E3 F4'' = Inr k \<and>
           cutter_slots k
             = take 3 (cutter_groups (drop idx ''QA76.5.C15 D2.E3 F4'') @ replicate 3 ([], PInf)))"
    using cutter_slots_first_three [of Fin "''QA76.5 .C15 D2.E3 F4''"]
    unfolding n by blast
  from p p' have idx: "idx = 6" by simp
  from i t obtain k where "lc_sort_key Fin ''QA76.5 .C15 D2.E3 F4'' = Inr k"
    and "cutter_slots k
      = take 3 (cutter_groups (drop 6 ''QA76.5.C15 D2.E3 F4'') @ replicate 3 ([], PInf))"
    unfolding idx by blast
  then have s: "cutter_slots
        (''QA'', Fin (153 / 2), ''C'', Fin 15, ''D'', Fin 2, ''E'', Fin 3, PInf)
     = take 3 ([(''C'', Fin 15), (''D'', Fin 2), (''E'', Fin 3), (''F'', Fin 4)]
               @ replicate 3 ([], PInf))"
    unfolding a g by simp
  have l: "lc_sort_key Fin (''QA76 .C'' @ replicate 4301 (CHR ''1'')) = Inl ValueError"
    by (rule long_cutter_raises) (simp add: int_max_str_digits_def)
  from a t g s b l show ?thesis by (simp only: n simp_thms)
qed

text \<open>
  The claim as stated leaves no room for whitespace between the letter and the digits.
  In \<open>QA76 .C 153\<close> no digit follows a letter at once, yet the first slot holds the
  cutter \<open>C\<close> 153.
\<close>

theorem cutter_group_inner_space_counterexample:
  "parse_class_and_number Fin (normalize ''QA76 .C 153'') = Inr (''QA'', Fin 76, 4) \<and>
   adjacent_cutter_groups (drop 4 (normalize ''QA76 .C 153'')) = [] \<and>
   lc_sort_key Fin ''QA76 .C 153''
     = Inr (''QA'', Fin 76, ''C'', Fin 153, [], PInf, [], PInf, PInf) \<and>
   cutter_slots (''QA'', Fin 76, ''C'', Fin 153, [], PInf, [], PInf, PInf)
     \<noteq> take 3 (adjacent_cutter_groups (drop 4 (normalize ''QA76 .C 153''))
               @ replicate 3 ([], PInf))"
proof -
  have n: "normalize ''QA76 .C 153'' = ''QA76.C 153''"
    by (simp add: eval_defs)
  have p: "parse_class_and_number Fin ''QA76.C 153'' = Inr (''QA'', Fin 76, 4)"
    by (simp add: eval_defs)
  have g: "adjacent_cutter_groups (drop 4 ''QA76.C 153'') = []"
    by (simp add: eval_defs starts_with_digit_def)
  have k: "lc_sort_key Fin ''QA76 .C 153''
     = Inr (''QA'', Fin 76, ''C'', Fin 153, [], PInf, [], PInf, PInf)"
    by (simp add: eval_defs numeral_2_eq_2 numeral_3_eq_3)
  have s: "cutter_slots (''QA'', Fin 76, ''C'', Fin 153, [], PInf, [], PInf, PInf)
     \<noteq> take 3 ([] @ replicate 3 ([], PInf))"
    by (simp add: cutter_slots_def numeral_3_eq_3)
  from p g k s show ?thesis by (simp only: n g simp_thms)
qed

section \<open>The year\<close>

lemma digit_val_bound: "is_digit c \<Longrightarrow> digit_val c < 10"
  by (auto simp: is_digit_def digit_val_def)

lemma digit_val_12: "is_digit c \<Longrightarrow> (digit_val c = 1 \<or> digit_val c = 2) = (c = CHR ''1'' \<or> c = CHR ''2'')"
proof -
  assume d: "is_digit c"
  have "code c = 49 \<longleftrightarrow> c = CHR ''1''" "code c = 50 \<longleftrightarrow> c = CHR ''2''"
    using code_eq_iff [of c "CHR ''1''"] code_eq_iff [of c "CHR ''2''"]
    by (simp_all add: code_def)
  then show ?thesis using d by (auto simp: is_digit_def digit_val_def)
qed

lemma digits_value_4:
  "digits_value [a, b, c, d] = 1000 * digit_val a + 100 * digit_val b + 10 * digit_val c + digit_val d"
  by (simp add: digits_value_def)

lemma list4: "4 \<le> length t \<Longrightarrow> \<exists>a b c d r. t = a # b # c # d # r"
  by (auto simp: eval_nat_numeral Suc_le_length_iff)

lemma year_here_length: "year_here t \<Longrightarrow> 4 \<le> length t"
  by (auto simp: year_here_def split: list.splits)

lemma year_range:
  assumes "is_digit a" "is_digit b" "is_digit c" "is_digit d"
  shows "(1000 \<le> digits_value [a, b, c, d] \<and> digits_value [a, b, c, d] \<le> 2999)
        \<longleftrightarrow> (a = CHR ''1'' \<or> a = CHR ''2'')"
proof -
  have bd: "digit_val a < 10" "digit_val b < 10" "digit_val c < 10" "digit_val d < 10"
    using assms digit_val_bound by blast+
  have "(1000 \<le> digits_value [a, b, c, d] \<and> digits_value [a, b, c, d] \<le> 2999)
        \<longleftrightarrow> (digit_val a = 1 \<or> digit_val a = 2)"
    unfolding digits_value_4 using bd by arith
  also have "\<dots> \<longleftrightarrow> (a = CHR ''1'' \<or> a = CHR ''2'')"
    using assms(1) by (rule digit_val_12)
  finally show ?thesis .
qed

lemma year_here_Cons4:
  "year_here (a # b # c # d # r) \<longleftrightarrow>
     (a = CHR ''1'' \<or> a = CHR ''2'') \<and> is_digit b \<and> is_digit c \<and> is_digit d \<and>
     \<not> starts_with_digit r"
  by (cases r) (simp_all add: year_here_def starts_with_digit_def)

lemma year_numeral_Cons4:
  "year_numeral (a # b # c # d # r) \<longleftrightarrow>
     is_digit a \<and> is_digit b \<and> is_digit c \<and> is_digit d \<and>
     1000 \<le> digits_value [a, b, c, d] \<and> digits_value [a, b, c, d] \<le> 2999 \<and>
     \<not> starts_with_digit r"
  by (simp add: year_numeral_def)

lemma one_two_digit: "a = CHR ''1'' \<or> a = CHR ''2'' \<Longrightarrow> is_digit a"
  by (auto simp: is_digit_def code_def)

lemma year_here_iff: "year_here t \<longleftrightarrow> year_numeral t"
proof (cases "4 \<le> length t")
  case True
  then obtain a b c d r where t: "t = a # b # c # d # r"
    using list4 by blast
  show ?thesis
    unfolding t year_here_Cons4 year_numeral_Cons4
    using year_range [of a b c d] one_two_digit [of a] by blast
next
  case False
  then show ?thesis
    using year_here_length [of t] by (auto simp: year_numeral_def)
qed


lemma year_occurrences_after:
  assumes "year_here (a # b # c # d # r)"
  shows "year_occurrences (is_digit a) (b # c # d # r) = year_occurrences True r"
proof -
  have "is_digit a" "is_digit b" "is_digit c" "is_digit d"
    using assms one_two_digit [of a] by (auto simp: year_here_Cons4)
  then show ?thesis by simp
qed

lemma year_finditer_False:
  "map digits_value (year_finditer False (c # cs)) = year_occurrences (is_digit c) cs"
proof (induction "length cs" arbitrary: c cs rule: less_induct)
  case less
  have tail: "map digits_value (year_finditer False r) = year_occurrences True r"
    if "length r \<le> length cs" for r
  proof (cases r)
    case Nil
    then show ?thesis by simp
  next
    case (Cons e r')
    then have "length r' < length cs" using that by simp
    then have "map digits_value (year_finditer False (e # r')) = year_occurrences (is_digit e) r'"
      by (rule less)
    then show ?thesis by (simp add: Cons)
  qed
  show ?case
  proof (cases "\<not> is_digit c \<and> year_here cs")
    case True
    then have "4 \<le> length cs" using year_here_length by blast
    then obtain a b c' d r where cs: "cs = a # b # c' # d # r"
      using list4 by blast
    have "map digits_value (year_finditer False (c # cs))
        = digits_value [a, b, c', d] # map digits_value (year_finditer False r)"
      using True by (simp add: cs)
    also have "map digits_value (year_finditer False r) = year_occurrences True r"
      by (rule tail) (simp add: cs)
    also have "year_occurrences True r = year_occurrences (is_digit a) (b # c' # d # r)"
      using True year_occurrences_after [of a b c' d r] by (simp add: cs)
    also have "digits_value [a, b, c', d] # year_occurrences (is_digit a) (b # c' # d # r)
        = year_occurrences (is_digit c) cs"
      using True by (simp add: cs year_here_iff [symmetric])
    finally show ?thesis .
  next
    case False
    then have f: "year_finditer False (c # cs) = year_finditer False cs" by auto
    show ?thesis
    proof (cases cs)
      case Nil
      then show ?thesis by (simp add: year_here_def)
    next
      case (Cons a cs')
      then have "length cs' < length cs" by simp
      then have "map digits_value (year_finditer False (a # cs')) = year_occurrences (is_digit a) cs'"
        by (rule less)
      moreover have "year_occurrences (is_digit c) (a # cs') = year_occurrences (is_digit a) cs'"
        using False by (auto simp: Cons year_here_iff)
      ultimately show ?thesis unfolding f by (simp only: Cons)
    qed
  qed
qed

lemma year_finditer_occurrences:
  "map digits_value (year_finditer True s) = year_occurrences False s"
proof (cases s)
  case Nil
  then show ?thesis by simp
next
  case (Cons c cs)
  show ?thesis
  proof (cases "year_here (c # cs)")
    case True
    then have "4 \<le> length (c # cs)" by (rule year_here_length)
    then obtain b c' d r where cs: "cs = b # c' # d # r"
      using list4 [of "c # cs"] by auto
    have "map digits_value (year_finditer True (c # cs))
        = digits_value [c, b, c', d] # map digits_value (year_finditer False r)"
      using True by (simp add: cs)
    also have "map digits_value (year_finditer False r) = year_occurrences True r"
    proof (cases r)
      case Nil
      then show ?thesis by simp
    next
      case (Cons e r')
      then show ?thesis using year_finditer_False [of e r'] by simp
    qed
    also have "year_occurrences True r = year_occurrences (is_digit c) (b # c' # d # r)"
      using True year_occurrences_after [of c b c' d r] by (simp add: cs)
    also have "digits_value [c, b, c', d] # year_occurrences (is_digit c) (b # c' # d # r)
        = year_occurrences False (c # cs)"
      using True by (simp add: cs year_here_iff [symmetric])
    finally show ?thesis by (simp only: Cons)
  next
    case False
    then have "year_finditer True (c # cs) = year_finditer False (c # cs)" by simp
    moreover have "year_occurrences False (c # cs) = year_occurrences (is_digit c) cs"
      using False by (simp add: year_here_iff)
    ultimately show ?thesis
      using year_finditer_False [of c cs] by (simp only: Cons)
  qed
qed

lemma year_of_last_year: "year_of ys = last_year (map digits_value ys)"
  by (simp add: year_of_def last_year_def last_map)

text \<open>
  C7. The year of the sort key is the last occurrence, in the text that remains after
  the classification segment, of a numeral of four digits between 1000 and 2999 that no
  digit touches; without an occurrence the year is infinity. The key is built, and so
  has a year, unless a cutter group of that text has more than 4300 digits, which
  \<open>int\<close> refuses.
\<close>

theorem year_is_last_occurrence:
  "\<exists>letters num idx.
     parse_class_and_number rnd (normalize raw) = Inr (letters, num, idx) \<and>
     (cutter_too_long (drop idx (normalize raw)) \<longrightarrow> lc_sort_key rnd raw = Inl ValueError) \<and>
     (\<not> cutter_too_long (drop idx (normalize raw)) \<longrightarrow>
        (\<exists>k. lc_sort_key rnd raw = Inr k \<and>
           key_year k = last_year (year_occurrences False (drop idx (normalize raw))) \<and>
           (year_occurrences False (drop idx (normalize raw)) = [] \<longrightarrow> key_year k = PInf)))"
proof -
  obtain letters num idx where
    p: "parse_class_and_number rnd (normalize raw) = Inr (letters, num, idx)"
    using parse_class_and_number_total by blast
  have r: "cutter_too_long (drop idx (normalize raw)) \<longrightarrow> lc_sort_key rnd raw = Inl ValueError"
    using lc_sort_key_too_long [OF p] by blast
  have s: "\<exists>k. lc_sort_key rnd raw = Inr k \<and>
           key_year k = last_year (year_occurrences False (drop idx (normalize raw))) \<and>
           (year_occurrences False (drop idx (normalize raw)) = [] \<longrightarrow> key_year k = PInf)"
    if nl: "\<not> cutter_too_long (drop idx (normalize raw))"
  proof -
    obtain a x b y c z where
      k: "lc_sort_key rnd raw =
         Inr (if letters = [] then ''ZZZ'' else letters, num, a, x, b, y, c, z,
              year_of (year_finditer True (drop idx (normalize raw))))"
      using lc_sort_key_eq [OF p nl] by blast
    let ?k = "(if letters = [] then ''ZZZ'' else letters, num, a, x, b, y, c, z,
              year_of (year_finditer True (drop idx (normalize raw))))"
    have y: "key_year ?k = last_year (year_occurrences False (drop idx (normalize raw)))"
      by (simp add: key_year_def year_of_last_year year_finditer_occurrences)
    have "year_occurrences False (drop idx (normalize raw)) = [] \<longrightarrow> key_year ?k = PInf"
      unfolding y by (simp add: last_year_def)
    with k y show ?thesis by blast
  qed
  from p r s show ?thesis by blast
qed

theorem year_is_last_occurrence_witness:
  "lc_sort_key Fin ''QA76.5 .C153 1999 2019''
     = Inr (''QA'', Fin (153 / 2), ''C'', Fin 153, [], PInf, [], PInf, Fin 2019) \<and>
   \<not> cutter_too_long (drop 6 (normalize ''QA76.5 .C153 1999 2019'')) \<and>
   year_occurrences False (drop 6 (normalize ''QA76.5 .C153 1999 2019'')) = [1999, 2019] \<and>
   key_year (''QA'', Fin (153 / 2), ''C'', Fin 153, [], PInf, [], PInf, Fin 2019)
     = last_year [1999, 2019] \<and>
   year_occurrences False (drop 4 (normalize ''QA76 .C15'')) = [] \<and>
   lc_sort_key Fin ''QA76 .C15'' = Inr (''QA'', Fin 76, ''C'', Fin 15, [], PInf, [], PInf, PInf) \<and>
   lc_sort_key Fin (''QA76 .C'' @ replicate 4301 (CHR ''1'')) = Inl ValueError"
proof -
  have n: "normalize ''QA76.5 .C153 1999 2019'' = ''QA76.5.C153 1999 2019''"
    by (simp add: eval_defs)
  have p: "parse_class_and_number Fin ''QA76.5.C153 1999 2019'' = Inr (''QA'', Fin (153 / 2), 6)"
    by (simp add: eval_defs)
  have a: "lc_sort_key Fin ''QA76.5 .C153 1999 2019''
     = Inr (''QA'', Fin (153 / 2), ''C'', Fin 153, [], PInf, [], PInf, Fin 2019)"
    by (simp add: eval_defs numeral_2_eq_2 numeral_3_eq_3)
  have t: "\<not> cutter_too_long (drop 6 ''QA76.5.C153 1999 2019'')"
    by (simp add: cutter_too_long_def starts_with_digit_def eval_defs)
  have o: "year_occurrences False (drop 6 ''QA76.5.C153 1999 2019'') = [1999, 2019]"
    by (simp add: year_numeral_def starts_with_digit_def eval_defs)
  obtain letters num idx where
    p': "parse_class_and_number Fin ''QA76.5.C153 1999 2019'' = Inr (letters, num, idx)" and
    i: "\<not> cutter_too_long (drop idx ''QA76.5.C153 1999 2019'') \<longrightarrow>
        (\<exists>k. lc_sort_key Fin ''QA76.5 .C153 1999 2019'' = Inr k \<and>
           key_year k = last_year (year_occurrences False (drop idx ''QA76.5.C153 1999 2019'')) \<and>
           (year_occurrences False (drop idx ''QA76.5.C153 1999 2019'') = [] \<longrightarrow>
              key_year k = PInf))"
    using year_is_last_occurrence [of Fin "''QA76.5 .C153 1999 2019''"]
    unfolding n by blast
  from p p' have idx: "idx = 6" by simp
  from i t obtain k where "lc_sort_key Fin ''QA76.5 .C153 1999 2019'' = Inr k"
    and "key_year k = last_year (year_occurrences False (drop 6 ''QA76.5.C153 1999 2019''))"
    unfolding idx by blast
  then have k: "key_year (''QA'', Fin (153 / 2), ''C'', Fin 153, [], PInf, [], PInf, Fin 2019)
     = last_year [1999, 2019]"
    unfolding a o by simp
  have n2: "normalize ''QA76 .C15'' = ''QA76.C15''"
    by (simp add: eval_defs)
  have o2: "year_occurrences False (drop 4 ''QA76.C15'') = []"
    by (simp add: year_numeral_def starts_with_digit_def eval_defs)
  have b: "lc_sort_key Fin ''QA76 .C15''
     = Inr (''QA'', Fin 76, ''C'', Fin 15, [], PInf, [], PInf, PInf)"
    by (simp add: eval_defs numeral_2_eq_2 numeral_3_eq_3)
  have l: "lc_sort_key Fin (''QA76 .C'' @ replicate 4301 (CHR ''1'')) = Inl ValueError"
    by (rule long_cutter_raises) (simp add: int_max_str_digits_def)
  from a t o k o2 b l show ?thesis by (simp only: n n2 simp_thms)
qed

section \<open>Where missing components sort\<close>

lemma upper_below_Z: "is_upper a \<Longrightarrow> a \<noteq> CHR ''Z'' \<Longrightarrow> code a < 90"
proof -
  assume u: "is_upper a" and n: "a \<noteq> CHR ''Z''"
  have "code a \<noteq> code (CHR ''Z'')" using n code_eq_iff by blast
  then have "code a \<noteq> 90" by (simp add: code_def)
  with u show ?thesis by (simp add: is_upper_def)
qed

lemma code_Z: "code (CHR ''Z'') = 90"
  by (simp add: code_def)

lemma sentinel_not_less:
  assumes "list_all is_upper l" "length l \<le> 3"
  shows "\<not> str_less ''ZZZ'' l"
proof (cases l)
  case Nil
  then show ?thesis by simp
next
  case l1: (Cons a l')
  show ?thesis
  proof (cases l')
    case Nil
    with l1 assms show ?thesis
      using upper_below_Z [of a] by (auto simp: code_Z)
  next
    case l2: (Cons b l'')
    show ?thesis
    proof (cases l'')
      case Nil
      with l1 l2 assms show ?thesis
        using upper_below_Z [of a] upper_below_Z [of b] by (auto simp: code_Z)
    next
      case l3: (Cons c l''')
      with l1 l2 assms have "l''' = []" by simp
      with l1 l2 l3 assms show ?thesis
        using upper_below_Z [of a] upper_below_Z [of b] upper_below_Z [of c]
        by (auto simp: code_Z)
    qed
  qed
qed

lemma sentinel_greater:
  assumes "list_all is_upper l" "length l \<le> 3" "l \<noteq> ''ZZZ''"
  shows "str_less l ''ZZZ''"
  using assms sentinel_not_less [of l] str_less_total [of l "''ZZZ''"] by blast

text \<open>
  C3, as the code has it. The sentinel \<open>ZZZ\<close> is never less than one to three
  capital letters, and greater than all of them except \<open>ZZZ\<close> itself, which it
  equals. A missing classification number and a missing year, both infinity, compare
  after every finite value. A missing cutter pair, an empty letter and infinity,
  compares before every present pair in the same slot: the empty letter decides.
\<close>

theorem missing_components_order:
  "(list_all is_upper l \<and> 1 \<le> length l \<and> length l \<le> 3 \<longrightarrow>
      \<not> str_less ''ZZZ'' l \<and> (l \<noteq> ''ZZZ'' \<longrightarrow> str_less l ''ZZZ'')) \<and>
   key_less (l, Fin q, a, x, b, y, c, z, yr) (l, PInf, a', x', b', y', c', z', yr') \<and>
   key_less (l, n, a, x, b, y, c, z, Fin q) (l, n, a, x, b, y, c, z, PInf) \<and>
   (is_upper u \<longrightarrow>
      key_less (l, n, [], PInf, b, y, c, z, yr) (l, n, [u], Fin q, b', y', c', z', yr') \<and>
      key_less (l, n, a, x, [], PInf, c, z, yr) (l, n, a, x, [u], Fin q, c', z', yr') \<and>
      key_less (l, n, a, x, b, y, [], PInf, yr) (l, n, a, x, b, y, [u], Fin q, yr'))"
  using sentinel_not_less [of l] sentinel_greater [of l] by simp

theorem missing_components_order_witness:
  "list_all is_upper ''QA'' \<and> str_less ''QA'' ''ZZZ'' \<and> \<not> str_less ''ZZZ'' ''QA'' \<and>
   is_upper CHR ''C'' \<and>
   key_less (''QA'', Fin 76, [], PInf, [], PInf, [], PInf, PInf)
     (''QA'', Fin 76, ''C'', Fin 15, [], PInf, [], PInf, PInf)"
  using missing_components_order
    [of "''QA''" 76 "[]" PInf "[]" PInf "[]" PInf PInf "[]" PInf "[]" PInf "[]" PInf PInf
        "Fin 76" "CHR ''C''"]
  by (simp add: is_upper_def code_def)

text \<open>
  The claim as stated fails twice: the call number \<open>ZZZ\<close> has real letters that equal
  the sentinel, so its key is the all-missing key; and \<open>QA76\<close>, whose first cutter
  is missing, sorts before \<open>QA76 .C15\<close>, not after it.
\<close>

theorem missing_sorts_last_counterexample:
  "lc_sort_key Fin ''ZZZ'' = Inr all_missing \<and> \<not> str_less ''ZZZ'' ''ZZZ'' \<and>
   lc_sort_key Fin ''QA76'' = Inr (''QA'', Fin 76, [], PInf, [], PInf, [], PInf, PInf) \<and>
   lc_sort_key Fin ''QA76 .C15'' = Inr (''QA'', Fin 76, ''C'', Fin 15, [], PInf, [], PInf, PInf) \<and>
   key_less (''QA'', Fin 76, [], PInf, [], PInf, [], PInf, PInf)
     (''QA'', Fin 76, ''C'', Fin 15, [], PInf, [], PInf, PInf) \<and>
   \<not> key_less (''QA'', Fin 76, ''C'', Fin 15, [], PInf, [], PInf, PInf)
     (''QA'', Fin 76, [], PInf, [], PInf, [], PInf, PInf)"
  by (simp add: eval_defs numeral_2_eq_2 numeral_3_eq_3)

section \<open>Malformed input\<close>

lemma class_missing_letters:
  "class_missing s \<longleftrightarrow> take 3 (takeWhile is_upper (dropWhile is_space s)) = []"
proof -
  define s1 where "s1 = dropWhile is_space s"
  have "(case s1 of [] \<Rightarrow> True | c # _ \<Rightarrow> \<not> is_upper c)
      \<longleftrightarrow> take 3 (takeWhile is_upper s1) = []"
    by (cases s1) auto
  then show ?thesis by (simp only: class_missing_def s1_def)
qed

lemma parse_class_missing:
  "class_missing s \<Longrightarrow> parse_class_and_number rnd s = Inr ([], PInf, 0)"
  unfolding class_missing_letters parse_class_and_number_def Let_def
  by (simp only: simp_thms if_True)

lemma normalize_all_space: "list_all is_space raw \<Longrightarrow> normalize raw = []"
proof -
  assume "list_all is_space raw"
  then have s: "strip raw = []" by (rule strip_all_space)
  show ?thesis
    unfolding normalize_def s by (simp add: upper_def strip_def)
qed

lemma cutter_groups_Nil_not_long: "cutter_groups t = [] \<Longrightarrow> \<not> cutter_too_long t"
  by (simp add: cutter_groups_texts cutter_pairs_def cutter_too_long_def)

lemma class_missing_after_class:
  "class_missing (normalize raw) \<Longrightarrow> after_class raw = normalize raw"
  using after_class_drop [OF parse_class_missing, of raw] by simp

text \<open>
  C10, as the code has it. For every text in which no cutter group after the
  classification segment has more than 4300 digits, and every rounding, deriving the
  sort key raises nothing and returns a tuple of nine components. An empty text, or one
  of whitespace only, yields the all-missing key. When the normalised text has no
  classification segment, the letters are the sentinel and the classification number
  is infinity, while the cutter slots and the year are still read from the whole
  normalised text; the key is the all-missing key when that text has no cutter group
  and no year either.
\<close>

theorem lc_sort_key_malformed_input:
  "(\<not> cutter_overflow raw \<longrightarrow> (\<exists>k. lc_sort_key rnd raw = Inr k)) \<and>
   (list_all is_space raw \<longrightarrow> lc_sort_key rnd raw = Inr all_missing) \<and>
   (class_missing (normalize raw) \<and> \<not> cutter_overflow raw \<longrightarrow>
      (\<exists>k. lc_sort_key rnd raw = Inr k \<and> key_letters k = ''ZZZ'' \<and> key_number k = PInf \<and>
           cutter_slots k = take 3 (cutter_groups (normalize raw) @ replicate 3 ([], PInf)) \<and>
           key_year k = last_year (year_occurrences False (normalize raw)))) \<and>
   (class_missing (normalize raw) \<and> cutter_groups (normalize raw) = [] \<and>
    year_occurrences False (normalize raw) = [] \<longrightarrow> lc_sort_key rnd raw = Inr all_missing)"
proof -
  have total: "\<not> cutter_overflow raw \<longrightarrow> (\<exists>k. lc_sort_key rnd raw = Inr k)"
    using lc_sort_key_returns [of raw rnd] by blast
  have miss: "\<exists>k. lc_sort_key rnd raw = Inr k \<and> key_letters k = ''ZZZ'' \<and> key_number k = PInf \<and>
           cutter_slots k = take 3 (cutter_groups (normalize raw) @ replicate 3 ([], PInf)) \<and>
           key_year k = last_year (year_occurrences False (normalize raw))"
    if cm: "class_missing (normalize raw)" and nl: "\<not> cutter_too_long (normalize raw)"
  proof -
    have p: "parse_class_and_number rnd (normalize raw) = Inr ([], PInf, 0)"
      using cm by (rule parse_class_missing)
    have nl0: "\<not> cutter_too_long (drop 0 (normalize raw))" using nl by simp
    have "\<exists>a x b y c z.
        take 3 (cutter_groups (normalize raw) @ replicate 3 ([], PInf))
          = [(a, x), (b, y), (c, z)] \<and>
        lc_sort_key rnd raw =
          Inr (''ZZZ'', PInf, a, x, b, y, c, z, year_of (year_finditer True (normalize raw)))"
      using lc_sort_key_eq [OF p nl0] by simp
    then obtain a x b y c z where
      t: "take 3 (cutter_groups (normalize raw) @ replicate 3 ([], PInf))
         = [(a, x), (b, y), (c, z)]" and
      k': "lc_sort_key rnd raw =
         Inr (''ZZZ'', PInf, a, x, b, y, c, z, year_of (year_finditer True (normalize raw)))"
      by blast
    let ?k = "(''ZZZ'', PInf, a, x, b, y, c, z, year_of (year_finditer True (normalize raw)))"
    have "key_letters ?k = ''ZZZ'' \<and> key_number ?k = PInf \<and>
           cutter_slots ?k = take 3 (cutter_groups (normalize raw) @ replicate 3 ([], PInf)) \<and>
           key_year ?k = last_year (year_occurrences False (normalize raw))"
      using t by (simp add: key_letters_def key_number_def cutter_slots_def key_year_def
          year_of_last_year year_finditer_occurrences)
    with k' show ?thesis by blast
  qed
  have c3: "class_missing (normalize raw) \<and> \<not> cutter_overflow raw \<longrightarrow>
      (\<exists>k. lc_sort_key rnd raw = Inr k \<and> key_letters k = ''ZZZ'' \<and> key_number k = PInf \<and>
           cutter_slots k = take 3 (cutter_groups (normalize raw) @ replicate 3 ([], PInf)) \<and>
           key_year k = last_year (year_occurrences False (normalize raw)))"
  proof
    assume h: "class_missing (normalize raw) \<and> \<not> cutter_overflow raw"
    then have "\<not> cutter_too_long (normalize raw)"
      using class_missing_after_class [of raw] by (simp add: cutter_overflow_def)
    with h miss show "\<exists>k. lc_sort_key rnd raw = Inr k \<and> key_letters k = ''ZZZ'' \<and>
           key_number k = PInf \<and>
           cutter_slots k = take 3 (cutter_groups (normalize raw) @ replicate 3 ([], PInf)) \<and>
           key_year k = last_year (year_occurrences False (normalize raw))"
      by blast
  qed
  have c4: "lc_sort_key rnd raw = Inr all_missing"
    if "class_missing (normalize raw)" "cutter_groups (normalize raw) = []"
      "year_occurrences False (normalize raw) = []"
  proof -
    note cm = that(1)
    have nl: "\<not> cutter_too_long (normalize raw)"
      using that(2) by (rule cutter_groups_Nil_not_long)
    obtain k where k: "lc_sort_key rnd raw = Inr k" and
      m: "key_letters k = ''ZZZ''" "key_number k = PInf"
      "cutter_slots k = take 3 (cutter_groups (normalize raw) @ replicate 3 ([], PInf))"
      "key_year k = last_year (year_occurrences False (normalize raw))"
      using miss [OF cm nl] by blast
    obtain l n a x b y c z yr where kk: "k = (l, n, a, x, b, y, c, z, yr)"
      by (metis prod.collapse)
    have "k = all_missing"
      using m unfolding that(2) that(3) kk
      by (simp add: key_letters_def key_number_def cutter_slots_def key_year_def
          all_missing_def last_year_def numeral_3_eq_3)
    with k show ?thesis by simp
  qed
  have c2: "list_all is_space raw \<longrightarrow> lc_sort_key rnd raw = Inr all_missing"
  proof
    assume "list_all is_space raw"
    then have n: "normalize raw = []" by (rule normalize_all_space)
    show "lc_sort_key rnd raw = Inr all_missing"
      by (rule c4) (simp_all add: n class_missing_def)
  qed
  from total c2 c3 c4 show ?thesis by blast
qed

text \<open>
  The claim as stated fails twice. \<open>1234\<close> has no classification segment, yet its key
  carries the year 1234 and is not the all-missing key. And \<open>QA76 .C\<close> followed by
  4301 digits has no key: \<open>int\<close> raises \<open>ValueError\<close> on the cutter number.
\<close>

theorem malformed_input_counterexample:
  "class_missing (normalize ''1234'') \<and>
   lc_sort_key Fin ''1234'' = Inr (''ZZZ'', PInf, [], PInf, [], PInf, [], PInf, Fin 1234) \<and>
   (''ZZZ'', PInf, [], PInf, [], PInf, [], PInf, Fin 1234) \<noteq> all_missing \<and>
   lc_sort_key Fin (''QA76 .C'' @ replicate 4301 (CHR ''1'')) = Inl ValueError"
proof -
  have "class_missing (normalize ''1234'') \<and>
   lc_sort_key Fin ''1234'' = Inr (''ZZZ'', PInf, [], PInf, [], PInf, [], PInf, Fin 1234) \<and>
   (''ZZZ'', PInf, [], PInf, [], PInf, [], PInf, Fin 1234) \<noteq> all_missing"
    by (simp add: eval_defs class_missing_def numeral_2_eq_2 numeral_3_eq_3)
  moreover have "lc_sort_key Fin (''QA76 .C'' @ replicate 4301 (CHR ''1'')) = Inl ValueError"
    by (rule long_cutter_raises) (simp add: int_max_str_digits_def)
  ultimately show ?thesis by (simp only: simp_thms)
qed

theorem lc_sort_key_malformed_input_witness:
  "list_all is_space '' '' \<and> lc_sort_key Fin '' '' = Inr all_missing \<and>
   class_missing (normalize ''12 .A5 2019'') \<and> \<not> cutter_overflow ''12 .A5 2019'' \<and>
   lc_sort_key Fin ''12 .A5 2019''
     = Inr (''ZZZ'', PInf, ''A'', Fin 5, [], PInf, [], PInf, Fin 2019) \<and>
   class_missing (normalize ''?-?'') \<and> cutter_groups (normalize ''?-?'') = [] \<and>
   year_occurrences False (normalize ''?-?'') = [] \<and>
   lc_sort_key Fin ''?-?'' = Inr all_missing"
proof -
  have s: "list_all is_space '' ''" by (simp add: is_space_def code_def)
  have a: "lc_sort_key Fin '' '' = Inr all_missing"
    using lc_sort_key_malformed_input [of "'' ''" Fin] s by blast
  have n: "normalize ''?-?'' = ''?-?''" "normalize ''12 .A5 2019'' = ''12.A5 2019''"
    by (simp_all add: eval_defs)
  have c: "class_missing ''?-?''" "cutter_groups ''?-?'' = []"
    "year_occurrences False ''?-?'' = []" "class_missing ''12.A5 2019''"
    by (simp_all add: class_missing_def eval_defs year_numeral_def starts_with_digit_def)
  have b: "lc_sort_key Fin ''?-?'' = Inr all_missing"
    using lc_sort_key_malformed_input [of "''?-?''" Fin] c unfolding n by blast
  have ce: "class_end ''12.A5 2019'' = 0"
    by (simp add: class_end_def eval_defs)
  have o: "\<not> cutter_overflow ''12 .A5 2019''"
    unfolding cutter_overflow_def after_class_def n ce
    by (simp add: cutter_too_long_def starts_with_digit_def eval_defs)
  have d: "lc_sort_key Fin ''12 .A5 2019''
     = Inr (''ZZZ'', PInf, ''A'', Fin 5, [], PInf, [], PInf, Fin 2019)"
    by (simp add: eval_defs numeral_2_eq_2 numeral_3_eq_3)
  from s a b c d o show ?thesis by (simp only: n simp_thms)
qed

section \<open>Cleaning twice\<close>

lemma four_digits_end_head: "four_digits_end cs \<Longrightarrow> \<exists>d r. cs = d # r \<and> is_digit d"
  by (cases cs) (auto simp: four_digits_end_def)

lemma four_digits_end_no_blank:
  assumes "four_digits_end cs" "\<And>c. c \<in> set cs \<Longrightarrow> is_space c \<Longrightarrow> c = CHR '' ''"
  shows "CHR '' '' \<notin> set cs"
proof -
  have "length cs = 4 \<and> list_all is_digit cs"
    using assms four_digits_end_plain [of cs] by blast
  then show ?thesis using digit_not_blank by (auto simp: list_all_iff)
qed

lemma sub_space_spaces_before_year:
  "(\<And>c. c \<in> set t \<Longrightarrow> is_space c \<Longrightarrow> c = CHR '' '') \<Longrightarrow>
   spaces_before_year (sub_space_not_before_year t)"
proof (induction t)
  case Nil
  then show ?case by simp
next
  case (Cons c cs)
  have ih: "spaces_before_year (sub_space_not_before_year cs)"
    using Cons by simp
  show ?case
  proof (cases "c = CHR '' '' \<and> \<not> four_digits_end cs")
    case True
    with ih show ?thesis by simp
  next
    case False
    show ?thesis
    proof (cases "is_space c")
      case sp: True
      then have c: "c = CHR '' ''" using Cons.prems by simp
      with False have f: "four_digits_end cs" by simp
      have "CHR '' '' \<notin> set cs"
        using f Cons.prems by (intro four_digits_end_no_blank) simp_all
      then have "sub_space_not_before_year cs = cs" by (rule sub_space_no_blank)
      with ih f c show ?thesis by simp
    next
      case nsp: False
      with ih False show ?thesis by auto
    qed
  qed
qed

lemma spaces_before_year_sub: "spaces_before_year r \<Longrightarrow> sub_space_not_before_year r = r"
proof (induction r)
  case Nil
  then show ?case by simp
next
  case (Cons c cs)
  have ih: "sub_space_not_before_year cs = cs"
    using Cons by simp
  have "c = CHR '' '' \<Longrightarrow> four_digits_end cs"
    using Cons.prems by simp
  then have "\<not> (c = CHR '' '' \<and> \<not> four_digits_end cs)" by blast
  then have "sub_space_not_before_year (c # cs) = c # sub_space_not_before_year cs"
    by (simp only: sub_space_not_before_year.simps if_False)
  then show ?case by (simp only: ih)
qed

lemma spaces_before_year_collapse: "spaces_before_year r \<Longrightarrow> collapse_ws r = r"
proof (induction r)
  case Nil
  then show ?case by simp
next
  case (Cons c cs)
  have ih: "collapse_ws cs = cs" using Cons by simp
  show ?case
  proof (cases "is_space c")
    case True
    have c: "c = CHR '' ''" and f: "four_digits_end cs" using Cons.prems True by simp_all
    obtain d r where cs: "cs = d # r" and d: "is_digit d"
      using f four_digits_end_head by blast
    have "\<not> is_space d" using d by (rule digit_not_space)
    then have dw: "dropWhile is_space cs = cs" by (simp add: cs)
    have "collapse_ws (c # cs) = CHR '' '' # collapse_ws (dropWhile is_space cs)"
      using True by (simp only: collapse_ws.simps if_True)
    then show ?thesis by (simp only: dw ih c)
  next
    case False
    then have "collapse_ws (c # cs) = c # collapse_ws cs"
      by (simp only: collapse_ws.simps if_False)
    then show ?thesis by (simp only: ih)
  qed
qed

lemma spaces_before_year_last:
  "spaces_before_year r \<Longrightarrow> r \<noteq> [] \<Longrightarrow> \<not> is_space (last r)"
proof (induction r)
  case Nil
  then show ?case by simp
next
  case (Cons c cs)
  show ?case
  proof (cases "cs = []")
    case True
    have "\<not> four_digits_end []" by (simp add: four_digits_end_def)
    then have "\<not> is_space c" using Cons.prems True by auto
    then show ?thesis using True by simp
  next
    case False
    then have "\<not> is_space (last cs)" using Cons by simp
    then show ?thesis using False by simp
  qed
qed

lemma sub_space_hd:
  "t \<noteq> [] \<Longrightarrow> \<not> is_space (hd t) \<Longrightarrow>
   sub_space_not_before_year t \<noteq> [] \<and> hd (sub_space_not_before_year t) = hd t"
  by (cases t) auto

lemma collapse_ws_hd:
  "u \<noteq> [] \<Longrightarrow> \<not> is_space (hd u) \<Longrightarrow> collapse_ws u \<noteq> [] \<and> hd (collapse_ws u) = hd u"
  by (cases u) auto

lemma collapse_ws_Nil_iff: "collapse_ws u = [] \<longleftrightarrow> u = []"
  by (cases u) auto

lemma sub_space_Nil: "sub_space_not_before_year [] = []"
  by simp

lemma strip_hd_not_space: "strip s \<noteq> [] \<Longrightarrow> \<not> is_space (hd (strip s))"
proof -
  assume n: "strip s \<noteq> []"
  define v where "v = dropWhile is_space s"
  define w where "w = rev (takeWhile is_space (rev v))"
  have "rev (rev v) = rev (takeWhile is_space (rev v) @ dropWhile is_space (rev v))"
    by simp
  then have "v = rev (dropWhile is_space (rev v)) @ w"
    by (simp only: rev_append rev_rev_ident w_def)
  then have v: "v = strip s @ w"
    by (simp only: strip_def v_def)
  have "hd (strip s @ w) = hd (strip s)"
    using n by (rule hd_append2)
  then have h: "hd v = hd (strip s)"
    by (simp only: v [symmetric])
  have "v \<noteq> []"
  proof
    assume "v = []"
    with v have "strip s @ w = []" by simp
    with n show False by simp
  qed
  then have "\<not> is_space (hd v)"
    unfolding v_def by (rule hd_dropWhile)
  with h show ?thesis by simp
qed

text \<open>
  C5. Cleaning a call number is idempotent: cleaning a cleaned text changes nothing.
\<close>

theorem clean_call_number_idempotent:
  "clean_call_number_keep_space_before_year (clean_call_number_keep_space_before_year s)
     = clean_call_number_keep_space_before_year s"
proof (cases "s = []")
  case True
  then show ?thesis by (simp add: clean_call_number_keep_space_before_year_def)
next
  case False
  define u where "u = strip s"
  define t where "t = collapse_ws u"
  define r where "r = sub_space_not_before_year t"
  have r: "clean_call_number_keep_space_before_year s = r"
    using False by (simp add: clean_call_number_keep_space_before_year_def r_def t_def u_def)
  have ob: "\<And>c. c \<in> set t \<Longrightarrow> is_space c \<Longrightarrow> c = CHR '' ''"
    unfolding t_def by (rule collapse_ws_only_blank)
  have sby: "spaces_before_year r"
    unfolding r_def using ob by (rule sub_space_spaces_before_year)
  have hd: "r = [] \<or> \<not> is_space (hd r)"
  proof (cases "u = []")
    case True
    then show ?thesis by (simp add: r_def t_def)
  next
    case False
    then have "\<not> is_space (hd u)" unfolding u_def by (rule strip_hd_not_space)
    with False have "t \<noteq> [] \<and> hd t = hd u" unfolding t_def by (rule collapse_ws_hd)
    with \<open>\<not> is_space (hd u)\<close> have "t \<noteq> []" "\<not> is_space (hd t)" by simp_all
    then have "hd r = hd t" unfolding r_def using sub_space_hd by blast
    with \<open>\<not> is_space (hd t)\<close> show ?thesis by simp
  qed
  have "r = [] \<or> (\<not> is_space (hd r) \<and> \<not> is_space (last r))"
    using hd sby spaces_before_year_last by blast
  then have s1: "strip r = r" by (rule strip_id)
  have s2: "collapse_ws r = r" using sby by (rule spaces_before_year_collapse)
  have s3: "sub_space_not_before_year r = r" using sby by (rule spaces_before_year_sub)
  have "clean_call_number_keep_space_before_year r = r"
    by (simp add: clean_call_number_keep_space_before_year_def s1 s2 s3)
  then show ?thesis by (simp only: r)
qed

theorem clean_call_number_idempotent_witness:
  "clean_call_number_keep_space_before_year ''  QA 76  .C15 2019 '' = ''QA76.C15 2019'' \<and>
   clean_call_number_keep_space_before_year ''QA76.C15 2019'' = ''QA76.C15 2019''"
proof -
  have a: "clean_call_number_keep_space_before_year ''  QA 76  .C15 2019 '' = ''QA76.C15 2019''"
    by (simp add: clean_call_number_keep_space_before_year_def strip_def is_space_def code_def
        four_digits_end_def is_digit_def at_dollar_def)
  from clean_call_number_idempotent [of "''  QA 76  .C15 2019 ''"]
  have "clean_call_number_keep_space_before_year ''QA76.C15 2019'' = ''QA76.C15 2019''"
    by (simp only: a)
  with a show ?thesis by simp
qed

section \<open>The ranking pass\<close>

lemma row_before_asym: "row_before x y \<Longrightarrow> \<not> row_before y x"
proof
  assume xy: "row_before x y" and yx: "row_before y x"
  show False
  proof (cases "lc_key x = lc_key y")
    case True
    have n: "\<not> key_less (lc_key y) (lc_key y)" by (rule key_less_irrefl)
    from xy have "row_id x < row_id y"
      unfolding row_before_def True using n by blast
    moreover from yx have "row_id y < row_id x"
      unfolding row_before_def True using n by blast
    ultimately show False by (rule less_asym)
  next
    case False
    then have ne: "lc_key y \<noteq> lc_key x" by (rule not_sym)
    have "key_less (lc_key x) (lc_key y)"
      using xy False unfolding row_before_def by (elim disjE conjE) (assumption, erule notE)
    moreover have "key_less (lc_key y) (lc_key x)"
      using yx ne unfolding row_before_def by (elim disjE conjE) (assumption, erule notE)
    ultimately have "key_less (lc_key x) (lc_key y)" "key_less (lc_key y) (lc_key x)" .
    then show False using key_less_asym by blast
  qed
qed

lemma row_before_irrefl: "\<not> row_before x x"
  using row_before_asym by blast

lemma row_before_key_trans:
  assumes "key_less (lc_key x) (lc_key y)" "row_before y z"
  shows "row_before x z"
proof (cases "lc_key y = lc_key z")
  case True
  with assms(1) have "key_less (lc_key x) (lc_key z)" by simp
  then show ?thesis unfolding row_before_def by (rule disjI1)
next
  case False
  have "key_less (lc_key y) (lc_key z)"
    using assms(2) False unfolding row_before_def
    by (elim disjE conjE) (assumption, erule notE)
  with assms(1) have "key_less (lc_key x) (lc_key z)" by (rule key_less_trans)
  then show ?thesis unfolding row_before_def by (rule disjI1)
qed

lemma sorted_insert_row:
  "sorted_wrt row_before ys \<Longrightarrow> (\<And>y. y \<in> set ys \<Longrightarrow> row_id y < row_id x) \<Longrightarrow>
   sorted_wrt row_before (insert_sorted lc_key x ys)"
proof (induction ys)
  case Nil
  then show ?case by simp
next
  case (Cons y ys)
  show ?case
  proof (cases "key_less (lc_key x) (lc_key y)")
    case True
    have "row_before x z" if "z \<in> set (y # ys)" for z
    proof (cases "z = y")
      case True
      with \<open>key_less (lc_key x) (lc_key y)\<close> show ?thesis
        unfolding row_before_def by blast
    next
      case False
      with that Cons.prems(1) have "row_before y z" by auto
      with True show ?thesis by (rule row_before_key_trans)
    qed
    with True Cons.prems(1) show ?thesis by simp
  next
    case False
    have yx: "row_before y x"
    proof -
      have "row_id y < row_id x" using Cons.prems(2) by simp
      moreover have "key_less (lc_key y) (lc_key x) \<or> lc_key y = lc_key x"
        using False key_less_total [of "lc_key y" "lc_key x"] by blast
      ultimately show ?thesis unfolding row_before_def by blast
    qed
    have ih: "sorted_wrt row_before (insert_sorted lc_key x ys)"
      using Cons by simp
    have "row_before y w" if "w \<in> set (insert_sorted lc_key x ys)" for w
      using that yx Cons.prems(1) by (auto simp: set_insert_sorted)
    with False ih show ?thesis by simp
  qed
qed

lemma set_foldl_insert:
  "set (foldl (\<lambda>acc x. insert_sorted key x acc) acc xs) = set acc \<union> set xs"
  by (induction xs arbitrary: acc) (auto simp: set_insert_sorted)

lemma sorted_foldl_insert_row:
  "sorted_wrt row_before acc \<Longrightarrow>
   (\<And>y x. y \<in> set acc \<Longrightarrow> x \<in> set xs \<Longrightarrow> row_id y < row_id x) \<Longrightarrow>
   sorted_wrt (\<lambda>a b. row_id a < row_id b) xs \<Longrightarrow>
   sorted_wrt row_before (foldl (\<lambda>acc x. insert_sorted lc_key x acc) acc xs)"
proof (induction xs arbitrary: acc)
  case Nil
  then show ?case by simp
next
  case (Cons x xs)
  have a: "sorted_wrt row_before (insert_sorted lc_key x acc)"
    using Cons.prems(1,2) by (intro sorted_insert_row) simp_all
  have b: "row_id y < row_id z"
    if "y \<in> set (insert_sorted lc_key x acc)" "z \<in> set xs" for y z
    using that Cons.prems(2,3) by (auto simp: set_insert_sorted)
  have c: "sorted_wrt (\<lambda>a b. row_id a < row_id b) xs"
    using Cons.prems(3) by simp
  show ?case
    using Cons.IH [OF a b c] by simp
qed

lemma length_filter_insert_sorted:
  "length (filter P (insert_sorted key x ys)) = length (filter P (x # ys))"
  by (induction ys) auto

lemma length_filter_foldl_insert:
  "length (filter P (foldl (\<lambda>acc x. insert_sorted key x acc) acc xs))
     = length (filter P acc) + length (filter P xs)"
proof (induction xs arbitrary: acc)
  case Nil
  then show ?case by simp
next
  case (Cons x xs)
  show ?case
    unfolding foldl_Cons Cons.IH length_filter_insert_sorted by simp
qed

lemma length_filter_py_sorted:
  "length (filter P (py_sorted key xs)) = length (filter P xs)"
  by (simp add: py_sorted_def length_filter_foldl_insert)

lemma length_py_sorted: "length (py_sorted key xs) = length xs"
  using length_filter_py_sorted [of "\<lambda>_. True" key xs] by simp

lemma set_py_sorted: "set (py_sorted key xs) = set xs"
  by (simp add: py_sorted_def set_foldl_insert)

lemma sorted_position:
  assumes s: "sorted_wrt row_before S" and x: "x \<in> set S"
  shows "length (filter (\<lambda>y. row_before y x) S) < length S \<and>
         S ! length (filter (\<lambda>y. row_before y x) S) = x"
proof -
  obtain A B where S: "S = A @ x # B" using x by (meson split_list)
  have A: "\<And>a. a \<in> set A \<Longrightarrow> row_before a x"
    and B: "\<And>b. b \<in> set B \<Longrightarrow> row_before x b"
    using s by (auto simp: S sorted_wrt_append)
  have fa: "filter (\<lambda>y. row_before y x) A = A" using A by simp
  have fb: "filter (\<lambda>y. row_before y x) B = []"
    using B row_before_asym by (auto simp: filter_empty_conv)
  have "filter (\<lambda>y. row_before y x) S = A"
    by (simp add: S fa fb row_before_irrefl)
  then show ?thesis by (simp add: S)
qed


lemma distinct_map_insert_sorted:
  "distinct (map f (insert_sorted key x ys)) \<longleftrightarrow> f x \<notin> f ` set ys \<and> distinct (map f ys)"
  by (induction ys) (auto simp: set_insert_sorted)

lemma distinct_map_foldl_insert:
  "distinct (map f (foldl (\<lambda>acc x. insert_sorted key x acc) acc xs))
     \<longleftrightarrow> distinct (map f (acc @ xs))"
proof (induction xs arbitrary: acc)
  case Nil
  then show ?case by simp
next
  case (Cons x xs)
  have "distinct (map f (insert_sorted key x acc @ xs)) \<longleftrightarrow> distinct (map f (acc @ x # xs))"
    by (auto simp: distinct_map_insert_sorted set_insert_sorted)
  then show ?case
    unfolding foldl_Cons Cons.IH by simp
qed

lemma distinct_map_py_sorted:
  "distinct (map f (py_sorted key xs)) \<longleftrightarrow> distinct (map f xs)"
  by (simp add: py_sorted_def distinct_map_foldl_insert)

lemma index_fold_other:
  "key \<notin> row_id ` set rs \<Longrightarrow>
   foldl (\<lambda>m (i, r). m(row_id r \<mapsto> i + 1)) m (enumerate n rs) key = m key"
  by (induction rs arbitrary: m n) auto

lemma index_fold_nth:
  "distinct (map row_id rs) \<Longrightarrow> p < length rs \<Longrightarrow>
   foldl (\<lambda>m (i, r). m(row_id r \<mapsto> i + 1)) m (enumerate n rs) (row_id (rs ! p))
     = Some (n + p + 1)"
proof (induction rs arbitrary: m n p)
  case Nil
  then show ?case by simp
next
  case (Cons r rs)
  show ?case
  proof (cases p)
    case 0
    have "row_id r \<notin> row_id ` set rs" using Cons.prems(1) by simp
    then have "foldl (\<lambda>m (i, r). m(row_id r \<mapsto> i + 1)) (m(row_id r \<mapsto> n + 1))
        (enumerate (Suc n) rs) (row_id r) = (m(row_id r \<mapsto> n + 1)) (row_id r)"
      by (rule index_fold_other)
    then show ?thesis by (simp add: 0 fun_upd_same del: fun_upd_apply)
  next
    case (Suc q)
    then have "q < length rs" "distinct (map row_id rs)" using Cons.prems by simp_all
    then show ?thesis using Cons.IH [of q _ "Suc n"] by (simp add: Suc del: fun_upd_apply)
  qed
qed

lemma id_to_index_nth:
  "distinct (map row_id rs) \<Longrightarrow> p < length rs \<Longrightarrow>
   id_to_index rs (row_id (rs ! p)) = Some (p + 1)"
  using index_fold_nth [of rs p Map.empty 0] by (simp add: id_to_index_def)

lemma final_write_sound:
  "(\<And>r. r \<in> set xs \<Longrightarrow> m (row_id r) = Some (g r) \<and> row_surplus r = []) \<Longrightarrow>
   final_write m xs
     = (map (\<lambda>r. (AList.delete ''LC_SortIndex'' (row_fields r), g r)) xs, None)"
  by (induction xs) auto

subsection \<open>Cleaning a record\<close>

lemma get_default_update_other:
  "k \<noteq> k' \<Longrightarrow> get_default (AList.update k' v row) k = get_default row k"
  by (simp add: get_default_def update_conv')

lemma get_default_delete_other:
  "k \<noteq> k' \<Longrightarrow> get_default (AList.delete k' row) k = get_default row k"
  by (simp add: get_default_def delete_conv')

lemma lc_cell_missing_get: "lc_cell_missing row \<longleftrightarrow> get_default row ''LC Call Number'' = None"
  by (auto simp: lc_cell_missing_def get_default_def split: option.splits)

text \<open>
  The cleaning of the fields stops with \<open>TypeError\<close> exactly on a record whose cell of
  the LC call number has no value.
\<close>

lemma clean_fields_cases:
  "\<exists>row3.
     clean_fields row =
       (case get_default row ''LC Call Number'' of
          None \<Rightarrow> Inl TypeError
        | Some lc_raw \<Rightarrow>
            Inr (AList.update ''LC Call Number''
                   (Some (clean_call_number_keep_space_before_year
                      (strip (sub_and_others False lc_raw)))) row3))"
proof -
  obtain location cn_from_pa where
    e: "extract_from_physical_availability
          (or_empty (get_default row ''Physical Availability'')) = (location, cn_from_pa)"
    by (metis prod.collapse)
  define row1 where "row1 = AList.update ''Physical Availability'' (Some location) row"
  define row2 where "row2 = AList.update ''CNfromPA''
                   (Some (clean_call_number_keep_space_before_year cn_from_pa)) row1"
  define row3 where "row3 = AList.update ''Local Call Number''
                   (Some (clean_call_number_keep_space_before_year
                      (or_empty (get_default row2 ''Local Call Number''))))
                   row2"
  have g: "get_default row3 ''LC Call Number'' = get_default row ''LC Call Number''"
    by (simp add: row3_def row2_def row1_def get_default_update_other)
  have "clean_fields row =
       (case get_default row ''LC Call Number'' of
          None \<Rightarrow> Inl TypeError
        | Some lc_raw \<Rightarrow>
            Inr (AList.update ''LC Call Number''
                   (Some (clean_call_number_keep_space_before_year
                      (strip (sub_and_others False lc_raw)))) row3))"
    unfolding clean_fields_def e Let_def prod.case
      row1_def [symmetric] row2_def [symmetric] row3_def [symmetric] g ..
  then show ?thesis by blast
qed

lemma clean_fields_missing: "lc_cell_missing row \<Longrightarrow> clean_fields row = Inl TypeError"
  using clean_fields_cases [of row] by (auto simp: lc_cell_missing_get)

lemma getf_update_same: "getf (AList.update k (Some v) row) k = v"
  by (simp add: getf_def or_empty_def update_conv')

lemma clean_fields_present:
  assumes "get_default row ''LC Call Number'' = Some lc_raw"
  shows "\<exists>row4. clean_fields row = Inr row4 \<and>
     getf row4 ''LC Call Number''
       = clean_call_number_keep_space_before_year (strip (sub_and_others False lc_raw))"
  using clean_fields_cases [of row] by (auto simp: assms getf_update_same)

lemma best_call_number_lc:
  "strip (getf row ''LC Call Number'') \<noteq> [] \<Longrightarrow>
   best_call_number_for_sort row = strip (getf row ''LC Call Number'')"
  by (simp add: best_call_number_for_sort_def Let_def)

lemma ranking_text_lc:
  assumes g: "map_of row ''LC Call Number'' = Some (Some lc_raw)"
    and ne: "strip (clean_call_number_keep_space_before_year
               (strip (sub_and_others False lc_raw))) \<noteq> []"
  shows "ranking_text row
     = strip (clean_call_number_keep_space_before_year (strip (sub_and_others False lc_raw)))"
proof -
  have "get_default (AList.delete ''_row_id'' row) ''LC Call Number'' = Some lc_raw"
    using g by (simp add: get_default_delete_other) (simp add: get_default_def)
  then obtain row4 where r: "clean_fields (AList.delete ''_row_id'' row) = Inr row4"
    and l: "getf row4 ''LC Call Number''
       = clean_call_number_keep_space_before_year (strip (sub_and_others False lc_raw))"
    using clean_fields_present by blast
  show ?thesis
    unfolding ranking_text_def r using ne best_call_number_lc [of row4] by (simp add: l)
qed

text \<open>The three outcomes of cleaning a record.\<close>

lemma clean_row_missing:
  "lc_cell_missing (cells r) \<Longrightarrow> clean_row rnd rid r = Inl TypeError"
proof -
  assume "lc_cell_missing (cells r)"
  then have "lc_cell_missing (AList.delete ''_row_id'' (cells r))"
    by (simp add: lc_cell_missing_def delete_conv')
  then show ?thesis by (simp add: clean_row_def clean_fields_missing)
qed

lemma clean_fields_returns:
  "\<not> lc_cell_missing row \<Longrightarrow> \<exists>row4. clean_fields (AList.delete ''_row_id'' row) = Inr row4"
proof -
  assume "\<not> lc_cell_missing row"
  then have "\<not> lc_cell_missing (AList.delete ''_row_id'' row)"
    by (simp add: lc_cell_missing_def delete_conv')
  then obtain lc_raw where
    "get_default (AList.delete ''_row_id'' row) ''LC Call Number'' = Some lc_raw"
    by (auto simp: lc_cell_missing_get)
  then show ?thesis using clean_fields_present by blast
qed

lemma clean_row_overflow:
  assumes "\<not> lc_cell_missing (cells r)" "cutter_overflow (ranking_text (cells r))"
  shows "clean_row rnd rid r = Inl ValueError"
proof -
  obtain row4 where c: "clean_fields (AList.delete ''_row_id'' (cells r)) = Inr row4"
    using clean_fields_returns [OF assms(1)] by blast
  then have "ranking_text (cells r) = best_call_number_for_sort row4"
    by (simp add: ranking_text_def)
  with assms(2) have "lc_sort_key rnd (best_call_number_for_sort row4) = Inl ValueError"
    by (simp add: lc_sort_key_raises)
  with c show ?thesis by (simp add: clean_row_def)
qed

lemma clean_row_sound:
  assumes "\<not> lc_cell_missing (cells r)" "\<not> cutter_overflow (ranking_text (cells r))"
  shows "\<exists>c. clean_row rnd rid r = Inr c \<and> row_id c = rid \<and> row_surplus c = surplus r"
proof -
  obtain row4 where c: "clean_fields (AList.delete ''_row_id'' (cells r)) = Inr row4"
    using clean_fields_returns [OF assms(1)] by blast
  then have "ranking_text (cells r) = best_call_number_for_sort row4"
    by (simp add: ranking_text_def)
  with assms(2) obtain k where "lc_sort_key rnd (best_call_number_for_sort row4) = Inr k"
    using lc_sort_key_returns [of "best_call_number_for_sort row4" rnd] by auto
  with c show ?thesis by (simp add: clean_row_def)
qed

lemma first_pass_sound:
  "list_all sound_record rows \<Longrightarrow>
   \<exists>cleaned. first_pass rnd n rows = Inr cleaned \<and> length cleaned = length rows \<and>
     (\<forall>i<length rows. clean_row rnd (n + 1 + i) (rows ! i) = Inr (cleaned ! i) \<and>
        row_id (cleaned ! i) = n + 1 + i \<and> row_surplus (cleaned ! i) = [])"
proof (induction rows arbitrary: n)
  case Nil
  then show ?case by simp
next
  case (Cons row rows)
  from Cons.prems have s: "sound_record row" and ss: "list_all sound_record rows"
    by simp_all
  obtain r where r: "clean_row rnd (n + 1) row = Inr r" "row_id r = n + 1"
    "row_surplus r = []"
    using clean_row_sound [of row rnd "n + 1"] s by (auto simp: sound_record_def)
  obtain cleaned where c: "first_pass rnd (n + 1) rows = Inr cleaned"
    "length cleaned = length rows"
    "\<And>i. i < length rows \<Longrightarrow> clean_row rnd (n + 1 + 1 + i) (rows ! i) = Inr (cleaned ! i) \<and>
        row_id (cleaned ! i) = n + 1 + 1 + i \<and> row_surplus (cleaned ! i) = []"
    using Cons.IH [OF ss, of "n + 1"] by blast
  have f: "first_pass rnd n (row # rows) = Inr (r # cleaned)"
    using r c by simp
  have "clean_row rnd (n + 1 + i) ((row # rows) ! i) = Inr ((r # cleaned) ! i) \<and>
        row_id ((r # cleaned) ! i) = n + 1 + i \<and> row_surplus ((r # cleaned) ! i) = []"
    if "i < length (row # rows)" for i
  proof (cases i)
    case 0
    with r show ?thesis by simp
  next
    case (Suc j)
    with that have "j < length rows" by simp
    then show ?thesis using c(3) [of j] by (simp add: Suc)
  qed
  with f c(2) show ?case by simp
qed

subsection \<open>Records on which the pass stops\<close>

lemma and_others_digit: "is_digit c \<Longrightarrow> \<not> and_others_here (c # cs)"
  by (auto simp: and_others_here_def lower_ascii_def is_upper_def is_digit_def code_def)

lemma sub_and_others_digits: "list_all is_digit ds \<Longrightarrow> sub_and_others b ds = ds"
  by (induction ds arbitrary: b) (simp_all add: and_others_digit)

lemma sub_space_digits: "list_all is_digit ds \<Longrightarrow> sub_space_not_before_year ds = ds"
  by (rule sub_space_no_blank) (auto simp: list_all_iff dest: digit_not_blank)

lemma clean_long:
  assumes d: "list_all is_digit ds" and ne: "ds \<noteq> []"
  shows "strip (clean_call_number_keep_space_before_year
           (strip (sub_and_others False (''QA76 .C'' @ ds)))) = ''QA76.C'' @ ds"
proof -
  have q: "\<not> is_space CHR ''Q''" by (simp add: is_space_def code_def)
  have s1: "strip (''QA76 .C'' @ ds) = ''QA76 .C'' @ ds"
    using strip_before_digits [OF d ne q, of "''A76 .C''"] by simp
  have s2: "strip (''QA76.C'' @ ds) = ''QA76.C'' @ ds"
    using strip_before_digits [OF d ne q, of "''A76.C''"] by simp
  have nc: "char_of (99::nat) \<noteq> CHR ''a''" by (simp add: char_of_def)
  have a: "sub_and_others False (''QA76 .C'' @ ds) = ''QA76 .C'' @ ds"
    by (simp add: sub_and_others_digits [OF d] and_others_here_def lower_ascii_def
        is_upper_def code_def nc)
  have c: "collapse_ws (''QA76 .C'' @ ds) = ''QA76 .C'' @ ds"
    by (simp add: collapse_ws_digits [OF d] is_space_def code_def)
  have b: "sub_space_not_before_year (''QA76 .C'' @ ds) = ''QA76.C'' @ ds"
    by (simp add: sub_space_digits [OF d] four_digits_end_def is_digit_def code_def)
  have cl: "clean_call_number_keep_space_before_year (''QA76 .C'' @ ds) = ''QA76.C'' @ ds"
    unfolding clean_call_number_keep_space_before_year_def s1 c b by simp
  show ?thesis
    unfolding a s1 cl s2 ..
qed

lemma long_row_raises:
  assumes "int_max_str_digits < n"
  shows "clean_row rnd rid
           \<lparr>cells = [(''LC Call Number'', Some (''QA76 .C'' @ replicate n (CHR ''1'')))],
            surplus = []\<rparr> = Inl ValueError"
proof -
  let ?ds = "replicate n (CHR ''1'')"
  let ?row = "[(''LC Call Number'', Some (''QA76 .C'' @ ?ds))]"
  have "0 < n" using assms by simp
  then have ne: "?ds \<noteq> []" by simp
  have cl: "strip (clean_call_number_keep_space_before_year
           (strip (sub_and_others False (''QA76 .C'' @ ?ds)))) = ''QA76.C'' @ ?ds"
    using ones_digits ne by (rule clean_long)
  have m: "map_of ?row ''LC Call Number'' = Some (Some (''QA76 .C'' @ ?ds))" by simp
  have rt: "ranking_text ?row = ''QA76.C'' @ ?ds"
    using ranking_text_lc [OF m] unfolding cl by simp
  have "normalize (''QA76.C'' @ ?ds) = ''QA76.C'' @ ?ds"
    using ones_digits ne by (rule normalize_long(2))
  then have o: "cutter_overflow (''QA76.C'' @ ?ds)"
    using ones_digits by (rule overflow_normal) (simp add: assms)
  have nm: "\<not> lc_cell_missing ?row" by (simp add: lc_cell_missing_def)
  show ?thesis
  proof (rule clean_row_overflow)
    show "\<not> lc_cell_missing (cells \<lparr>cells = ?row, surplus = []\<rparr>)"
      unfolding reader_row.select_convs by (rule nm)
    show "cutter_overflow (ranking_text (cells \<lparr>cells = ?row, surplus = []\<rparr>))"
      unfolding reader_row.select_convs rt by (rule o)
  qed
qed

lemma length_filter_nth:
  "length (filter P xs) = length (filter (\<lambda>j. P (xs ! j)) [0..<length xs])"
proof -
  have "filter P (map ((!) xs) [0..<length xs])
      = map ((!) xs) (filter (P \<circ> (!) xs) [0..<length xs])"
    by (rule filter_map)
  then have "length (filter P (map ((!) xs) [0..<length xs]))
      = length (filter (\<lambda>j. P (xs ! j)) [0..<length xs])"
    by (simp add: comp_def)
  then show ?thesis by (simp only: map_nth)
qed

text \<open>
  C2, as the code has it. On a batch of sound records the ranking pass raises nothing
  and emits the records in their ingestion order: the record at position \<open>i\<close> of the
  output holds the cleaned fields of the record at position \<open>i\<close> of the input. Its
  rank is its position, counted from one, in the stable sort of the batch by sort key.
  Of two records with equal keys, the one ingested first has the smaller rank.
\<close>

theorem ranking_pass_stable_ranks:
  "list_all sound_record rows \<Longrightarrow>
   \<exists>cleaned out.
     first_pass rnd 0 rows = Inr cleaned \<and> ranking_pass rnd rows = (out, None) \<and>
     length cleaned = length rows \<and> length out = length rows \<and>
     (\<forall>i<length rows.
        clean_row rnd (Suc i) (rows ! i) = Inr (cleaned ! i) \<and>
        fst (out ! i) = AList.delete ''LC_SortIndex'' (row_fields (cleaned ! i)) \<and>
        snd (out ! i) = stable_rank (map lc_key cleaned) i \<and>
        py_sorted lc_key cleaned ! (snd (out ! i) - 1) = cleaned ! i) \<and>
     (\<forall>i j. i < j \<and> j < length rows \<and> lc_key (cleaned ! i) = lc_key (cleaned ! j)
        \<longrightarrow> snd (out ! i) < snd (out ! j))"
proof -
  assume sound: "list_all sound_record rows"
  obtain xs where fp: "first_pass rnd 0 rows = Inr xs" and len: "length xs = length rows"
    and cr: "\<And>i. i < length rows \<Longrightarrow>
      clean_row rnd (0 + 1 + i) (rows ! i) = Inr (xs ! i) \<and> row_id (xs ! i) = 0 + 1 + i \<and>
      row_surplus (xs ! i) = []"
    using first_pass_sound [OF sound, of rnd 0] by blast
  have ids: "row_id (xs ! i) = Suc i" if "i < length xs" for i
    using cr [of i] len that by simp
  have nosur: "row_surplus r = []" if "r \<in> set xs" for r
  proof -
    from that obtain i where "i < length xs" "xs ! i = r" by (auto simp: in_set_conv_nth)
    then show ?thesis using cr [of i] len by auto
  qed
  define S where "S = py_sorted lc_key xs"
  define pos where "pos = (\<lambda>r. length (filter (\<lambda>y. row_before y r) S))"
  define out where
    "out = map (\<lambda>r. (AList.delete ''LC_SortIndex'' (row_fields r), pos r + 1)) xs"
  have inc: "sorted_wrt (\<lambda>a b. row_id a < row_id b) xs"
    unfolding sorted_wrt_iff_nth_less using ids by simp
  have "sorted_wrt (<) (map row_id xs)"
    using inc by (simp add: sorted_wrt_map)
  then have dist: "distinct (map row_id xs)"
    using strict_sorted_iff by blast
  have sS: "sorted_wrt row_before S"
    unfolding S_def py_sorted_def by (rule sorted_foldl_insert_row) (simp_all add: inc)
  have setS: "set S = set xs" unfolding S_def by (rule set_py_sorted)
  have distS: "distinct (map row_id S)"
    unfolding S_def using dist by (simp only: distinct_map_py_sorted)
  have P: "pos r < length S \<and> S ! pos r = r" if "r \<in> set xs" for r
    using sorted_position [OF sS, of r] setS that unfolding pos_def by simp
  have M: "id_to_index S (row_id r) = Some (pos r + 1)" if "r \<in> set xs" for r
  proof -
    have "id_to_index S (row_id (S ! pos r)) = Some (pos r + 1)"
      using distS P [OF that] by (intro id_to_index_nth) simp_all
    then show ?thesis using P [OF that] by simp
  qed
  have fw: "final_write (id_to_index S) xs = (out, None)"
    unfolding out_def by (rule final_write_sound) (simp add: M nosur)
  have rp: "ranking_pass rnd rows = (out, None)"
    by (simp add: ranking_pass_def fp fw S_def [symmetric])
  have cnt: "pos (xs ! i) + 1 = stable_rank (map lc_key xs) i" if i: "i < length xs" for i
  proof -
    have "pos (xs ! i) = length (filter (\<lambda>y. row_before y (xs ! i)) xs)"
      unfolding pos_def S_def by (rule length_filter_py_sorted)
    also have "\<dots> = length (filter (\<lambda>j. row_before (xs ! j) (xs ! i)) [0..<length xs])"
      by (rule length_filter_nth)
    also have "filter (\<lambda>j. row_before (xs ! j) (xs ! i)) [0..<length xs]
        = filter (\<lambda>j. key_less (map lc_key xs ! j) (map lc_key xs ! i) \<or>
            (map lc_key xs ! j = map lc_key xs ! i \<and> j < i)) [0..<length xs]"
    proof (rule filter_cong [OF refl])
      fix j assume "j \<in> set [0..<length xs]"
      then have j: "j < length xs" by simp
      show "row_before (xs ! j) (xs ! i) =
          (key_less (map lc_key xs ! j) (map lc_key xs ! i) \<or>
            (map lc_key xs ! j = map lc_key xs ! i \<and> j < i))"
        unfolding row_before_def ids [OF i] ids [OF j] nth_map [OF i] nth_map [OF j]
        by (simp only: Suc_less_eq)
    qed
    finally show ?thesis by (simp add: stable_rank_def)
  qed
  have oi: "out ! i = (AList.delete ''LC_SortIndex'' (row_fields (xs ! i)), pos (xs ! i) + 1)"
    if "i < length xs" for i
    using that by (simp add: out_def)
  have per: "clean_row rnd (Suc i) (rows ! i) = Inr (xs ! i) \<and>
        fst (out ! i) = AList.delete ''LC_SortIndex'' (row_fields (xs ! i)) \<and>
        snd (out ! i) = stable_rank (map lc_key xs) i \<and>
        py_sorted lc_key xs ! (snd (out ! i) - 1) = xs ! i" if "i < length rows" for i
  proof -
    have i: "i < length xs" using that len by simp
    then have "xs ! i \<in> set xs" by simp
    then have "S ! pos (xs ! i) = xs ! i" using P by blast
    then show ?thesis
      using cr [OF that] by (simp add: oi [OF i] S_def cnt [OF i, symmetric])
  qed
  have st: "snd (out ! i) < snd (out ! j)"
    if "i < j" "j < length rows" "lc_key (xs ! i) = lc_key (xs ! j)" for i j
  proof -
    have j: "j < length xs" and i: "i < length xs" using that len by simp_all
    have b: "row_before (xs ! i) (xs ! j)"
      unfolding row_before_def ids [OF i] ids [OF j] using that(1,3) by simp
    have pi: "pos (xs ! i) < length S" "S ! pos (xs ! i) = xs ! i"
      and pj: "pos (xs ! j) < length S" "S ! pos (xs ! j) = xs ! j"
      using P i j by simp_all
    have "pos (xs ! i) < pos (xs ! j)"
    proof (rule ccontr)
      assume "\<not> pos (xs ! i) < pos (xs ! j)"
      then consider "pos (xs ! j) < pos (xs ! i)" | "pos (xs ! j) = pos (xs ! i)"
        by linarith
      then show False
      proof cases
        case 1
        then have "row_before (S ! pos (xs ! j)) (S ! pos (xs ! i))"
          using sS pi(1) by (simp add: sorted_wrt_iff_nth_less)
        then have "row_before (xs ! j) (xs ! i)" by (simp only: pi pj)
        with b show False using row_before_asym by blast
      next
        case 2
        then have "xs ! j = xs ! i" using pi(2) pj(2) by simp
        with b show False using row_before_irrefl by simp
      qed
    qed
    then show ?thesis by (simp add: oi [OF i] oi [OF j])
  qed
  have "length out = length rows" by (simp add: out_def len)
  with fp rp len per st show ?thesis by blast
qed

theorem ranking_pass_stable_ranks_witness:
  "list_all sound_record
     [\<lparr>cells = [(''_row_id'', Some ''x''), (''LC Call Number'', Some ''QA76 and others'')],
       surplus = []\<rparr>,
      \<lparr>cells = [(''LC Call Number'', Some ''PS1''), (''LC_SortIndex'', Some ''9'')],
       surplus = []\<rparr>,
      \<lparr>cells = [(''Local Call Number'', Some ''QA 76''), (''Physical Availability'', None)],
       surplus = []\<rparr>] \<and>
   ranking_pass Fin
     [\<lparr>cells = [(''_row_id'', Some ''x''), (''LC Call Number'', Some ''QA76 and others'')],
       surplus = []\<rparr>,
      \<lparr>cells = [(''LC Call Number'', Some ''PS1''), (''LC_SortIndex'', Some ''9'')],
       surplus = []\<rparr>,
      \<lparr>cells = [(''Local Call Number'', Some ''QA 76''), (''Physical Availability'', None)],
       surplus = []\<rparr>] =
   ([([(''LC Call Number'', Some ''QA76''), (''Physical Availability'', Some []),
       (''CNfromPA'', Some []), (''Local Call Number'', Some [])], 2),
     ([(''LC Call Number'', Some ''PS1''), (''Physical Availability'', Some []),
       (''CNfromPA'', Some []), (''Local Call Number'', Some [])], 1),
     ([(''Local Call Number'', Some ''QA76''), (''Physical Availability'', Some []),
       (''CNfromPA'', Some []), (''LC Call Number'', Some [])], 3)], None) \<and>
   stable_rank
     [(''QA'', Fin 76, [], PInf, [], PInf, [], PInf, PInf),
      (''PS'', Fin 1, [], PInf, [], PInf, [], PInf, PInf),
      (''QA'', Fin 76, [], PInf, [], PInf, [], PInf, PInf)] 0 = 2 \<and>
   stable_rank
     [(''QA'', Fin 76, [], PInf, [], PInf, [], PInf, PInf),
      (''PS'', Fin 1, [], PInf, [], PInf, [], PInf, PInf),
      (''QA'', Fin 76, [], PInf, [], PInf, [], PInf, PInf)] 2 = 3"
proof -
  let ?rows = "[\<lparr>cells = [(''_row_id'', Some ''x''), (''LC Call Number'', Some ''QA76 and others'')],
       surplus = []\<rparr>,
      \<lparr>cells = [(''LC Call Number'', Some ''PS1''), (''LC_SortIndex'', Some ''9'')],
       surplus = []\<rparr>,
      \<lparr>cells = [(''Local Call Number'', Some ''QA 76''), (''Physical Availability'', None)],
       surplus = []\<rparr>]"
  let ?out = "[([(''LC Call Number'', Some ''QA76''), (''Physical Availability'', Some []),
       (''CNfromPA'', Some []), (''Local Call Number'', Some [])], 2::nat),
     ([(''LC Call Number'', Some ''PS1''), (''Physical Availability'', Some []),
       (''CNfromPA'', Some []), (''Local Call Number'', Some [])], 1),
     ([(''Local Call Number'', Some ''QA76''), (''Physical Availability'', Some []),
       (''CNfromPA'', Some []), (''LC Call Number'', Some [])], 3)]"
  let ?ks = "[(''QA'', Fin 76, [], PInf, [], PInf, [], PInf, PInf),
      (''PS'', Fin 1, [], PInf, [], PInf, [], PInf, PInf),
      (''QA'', Fin 76, [], PInf, [], PInf, [], PInf, PInf)]"
  have so: "list_all sound_record ?rows"
    by code_simp
  have rp: "ranking_pass Fin ?rows = (?out, None)"
    by code_simp
  have ks: "(case first_pass Fin 0 ?rows of Inr cleaned \<Rightarrow> map lc_key cleaned | Inl e \<Rightarrow> []) = ?ks"
    by code_simp
  obtain cleaned out where fp: "first_pass Fin 0 ?rows = Inr cleaned"
    and o: "ranking_pass Fin ?rows = (out, None)"
    and r: "\<And>i. i < length ?rows \<Longrightarrow> snd (out ! i) = stable_rank (map lc_key cleaned) i"
    using ranking_pass_stable_ranks [OF so, of Fin] by blast
  have out: "out = ?out" using o rp by simp
  have k: "map lc_key cleaned = ?ks" using ks unfolding fp by (simp only: sum.case)
  have "snd (?out ! 0) = stable_rank ?ks 0" "snd (?out ! 2) = stable_rank ?ks 2"
    using r [of 0] r [of 2] unfolding out k by simp_all
  then have "stable_rank ?ks 0 = 2" "stable_rank ?ks 2 = 3" by simp_all
  with so rp show ?thesis by simp
qed

text \<open>
  The claim as stated fails on a batch with a record that is not sound: the pass stops
  and not all records are emitted. A cutter of 4301 digits stops the first pass with
  \<open>ValueError\<close>, a short line without its LC call number stops it with \<open>TypeError\<close>,
  and nothing is written; a line with a surplus cell stops the final loop with
  \<open>ValueError\<close> after the records before it have been written.
\<close>

theorem ranking_pass_stops_counterexample:
  "ranking_pass Fin
     [\<lparr>cells = [(''LC Call Number'', Some (''QA76 .C'' @ replicate 4301 (CHR ''1'')))],
       surplus = []\<rparr>] = ([], Some ValueError) \<and>
   ranking_pass Fin
     [\<lparr>cells = [(''Title'', Some ''t''), (''LC Call Number'', None)], surplus = []\<rparr>]
     = ([], Some TypeError) \<and>
   ranking_pass Fin
     [\<lparr>cells = [(''LC Call Number'', Some ''QA76'')], surplus = []\<rparr>,
      \<lparr>cells = [(''LC Call Number'', Some ''PS1'')], surplus = [''x'']\<rparr>]
     = ([([(''LC Call Number'', Some ''QA76''), (''Physical Availability'', Some []),
           (''CNfromPA'', Some []), (''Local Call Number'', Some [])], 2)],
        Some ValueError)"
proof -
  have c: "clean_row Fin (0 + 1)
     \<lparr>cells = [(''LC Call Number'', Some (''QA76 .C'' @ replicate 4301 (CHR ''1'')))],
       surplus = []\<rparr> = Inl ValueError"
    by (rule long_row_raises) (simp add: int_max_str_digits_def)
  have x: "ranking_pass Fin
     [\<lparr>cells = [(''LC Call Number'', Some (''QA76 .C'' @ replicate 4301 (CHR ''1'')))],
       surplus = []\<rparr>] = ([], Some ValueError)"
    unfolding ranking_pass_def first_pass.simps c by simp
  have y: "ranking_pass Fin
     [\<lparr>cells = [(''Title'', Some ''t''), (''LC Call Number'', None)], surplus = []\<rparr>]
     = ([], Some TypeError)"
    by code_simp
  have z: "ranking_pass Fin
     [\<lparr>cells = [(''LC Call Number'', Some ''QA76'')], surplus = []\<rparr>,
      \<lparr>cells = [(''LC Call Number'', Some ''PS1'')], surplus = [''x'']\<rparr>]
     = ([([(''LC Call Number'', Some ''QA76''), (''Physical Availability'', Some []),
           (''CNfromPA'', Some []), (''Local Call Number'', Some [])], 2)],
        Some ValueError)"
    by code_simp
  from x y z show ?thesis by (simp only: simp_thms)
qed

end
